theory Spec2Isabelle
  imports Main "HOL-Library.Word"
begin

text \<open>
  A model of \<^verbatim>\<open>dbms/src/Interpreters/MutationsInterpreter.cpp\<close>: the check for touched
  rows, the validation of update columns, \<^verbatim>\<open>prepare\<close> with its staging, its forward pass
  over the output columns and its backward pass over the expression chains, and the
  streams of \<^verbatim>\<open>validate\<close> and \<^verbatim>\<open>execute\<close>. Exceptions are values of \<open>error + 'a\<close>, the
  interpreter is a record that \<^verbatim>\<open>prepare\<close> returns updated, and columns are taken by
  name. The classes the file calls into are modelled on that level, each where it is
  first used.
\<close>

section \<open>Data model of \<^verbatim>\<open>MutationsInterpreter.cpp\<close>\<close>

text \<open>
  Expression trees. \<^verbatim>\<open>makeASTFunction(name, args...)\<close> builds a function node whose
  argument list holds \<open>args\<close> in order; the hand-built \<^verbatim>\<open>or\<close>/\<^verbatim>\<open>and\<close> nodes of the
  source fill the same two fields. A literal holds a \<open>Field\<close>. \<open>clone\<close> is a deep copy,
  which is the identity on values.
\<close>

datatype Field = Null | UInt64 "64 word" | Int64 "64 word" | String string

datatype ast =
    ASTIdentifier string
  | ASTLiteral Field
  | ASTFunction string "ast list"
  | ASTSubquery string

definition makeASTFunction :: "string \<Rightarrow> ast list \<Rightarrow> ast" where
  "makeASTFunction fname args = ASTFunction fname args"

definition clone :: "ast \<Rightarrow> ast" where
  "clone a = a"

text \<open>
  Error codes of the exceptions the source throws (messages are left out).
  \<open>UNDEFINED_BEHAVIOUR\<close> is not an exception of the source: it marks the places where the
  C++ has undefined behaviour (\<^verbatim>\<open>command.predicate->clone()\<close> on a null predicate,
  \<^verbatim>\<open>get<UInt64>()\<close> on a field of another kind, an index past the end of a column), so
  that the model fails there and no theorem speaks about what happens afterwards.
\<close>

datatype error =
    LOGICAL_ERROR
  | UNKNOWN_MUTATION_COMMAND
  | NO_SUCH_COLUMN_IN_TABLE
  | CANNOT_UPDATE_COLUMN
  | NOT_FOUND_COLUMN_IN_BLOCK
  | UNDEFINED_BEHAVIOUR

text \<open>
  \<^verbatim>\<open>MutationCommand\<close> is declared in a header of the repository, outside this file. The
  source compares \<open>type\<close> with \<open>DELETE\<close> and \<open>UPDATE\<close> and has an \<^verbatim>\<open>else\<close> branch for
  every other enumerator: \<open>OTHER\<close> stands for those. \<open>predicate\<close> is a pointer that may
  be null (\<^verbatim>\<open>if (!command.predicate)\<close>). \<open>column_to_update_expression\<close> is an
  \<^verbatim>\<open>unordered_map\<close>: an association list in iteration order.
\<close>

datatype MutationCommandType = DELETE | UPDATE | OTHER

record MutationCommand =
  type :: MutationCommandType
  predicate :: "ast option"
  column_to_update_expression :: "(string \<times> ast) list"

text \<open>
  Storage metadata, as far as the source reads it: the ordinary and the materialized
  columns of \<^verbatim>\<open>storage->getColumns()\<close>, each with a name and a type. A data type is
  represented by its name (\<^verbatim>\<open>type->getName()\<close>).
\<close>

record NameAndTypePair =
  name :: string
  type_name :: string

type_synonym NamesAndTypesList = "NameAndTypePair list"

record ColumnsDescription =
  ordinary :: NamesAndTypesList
  materialized :: NamesAndTypesList

record IStorage =
  getColumns :: ColumnsDescription

text \<open>
  Modelled from the spec: \<^verbatim>\<open>ColumnsDescription::getAllPhysical\<close> and
  \<^verbatim>\<open>IStorage::getColumn\<close> are defined elsewhere in the repository. In the spec the
  physical column list is "ordinary + materialized", and \<open>getColumn\<close> is the "per-column
  type lookup", taken here over that list; a column that is not there is
  \<open>NO_SUCH_COLUMN_IN_TABLE\<close>.
\<close>

definition getAllPhysical :: "ColumnsDescription \<Rightarrow> NamesAndTypesList" where
  "getAllPhysical cd = ordinary cd @ materialized cd"

fun find_column :: "string \<Rightarrow> NamesAndTypesList \<Rightarrow> NameAndTypePair option" where
  "find_column column_name [] = None"
| "find_column column_name (col # cols) =
     (if name col = column_name then Some col else find_column column_name cols)"

definition getColumn :: "IStorage \<Rightarrow> string \<Rightarrow> error + NameAndTypePair" where
  "getColumn storage column_name =
     (case find_column column_name (getAllPhysical (getColumns storage)) of
        None \<Rightarrow> Inl NO_SUCH_COLUMN_IN_TABLE
      | Some col \<Rightarrow> Inr col)"

section \<open>\<^verbatim>\<open>validateUpdateColumns\<close>\<close>

text \<open>The two inner searches of the source: linear, by name, stopping at the first hit.\<close>

fun has_column :: "string \<Rightarrow> NamesAndTypesList \<Rightarrow> bool" where
  "has_column column_name [] = False"
| "has_column column_name (col # cols) =
     (if name col = column_name then True else has_column column_name cols)"

definition validateUpdateColumn :: "IStorage \<Rightarrow> string \<Rightarrow> error + unit" where
  "validateUpdateColumn storage column_name =
     (if has_column column_name (ordinary (getColumns storage)) then Inr ()
      else if has_column column_name (materialized (getColumns storage))
        then Inl CANNOT_UPDATE_COLUMN
      else Inl NO_SUCH_COLUMN_IN_TABLE)"

fun validateUpdateExpressions :: "IStorage \<Rightarrow> (string \<times> ast) list \<Rightarrow> error + unit" where
  "validateUpdateExpressions storage [] = Inr ()"
| "validateUpdateExpressions storage (kv # kvs) =
     (case validateUpdateColumn storage (fst kv) of
        Inl e \<Rightarrow> Inl e
      | Inr _ \<Rightarrow> validateUpdateExpressions storage kvs)"

fun validateUpdateColumns :: "IStorage \<Rightarrow> MutationCommand list \<Rightarrow> error + unit" where
  "validateUpdateColumns storage [] = Inr ()"
| "validateUpdateColumns storage (command # commands) =
     (if type command \<noteq> UPDATE then validateUpdateColumns storage commands
      else case validateUpdateExpressions storage (column_to_update_expression command) of
             Inl e \<Rightarrow> Inl e
           | Inr _ \<Rightarrow> validateUpdateColumns storage commands)"

section \<open>Collaborators\<close>

type_synonym Names = "string list"

text \<open>
  \<^verbatim>\<open>NameSet\<close> is an \<^verbatim>\<open>unordered_set<String>\<close>: a list without duplicates, in the order
  the set is iterated; \<open>insert\<close> leaves a set that has the element as it is.
\<close>

type_synonym NameSet = "string list"

definition NameSet_insert :: "string \<Rightarrow> NameSet \<Rightarrow> NameSet" where
  "NameSet_insert x s = (if x \<in> set s then s else s @ [x])"

definition NameSet_insert_all :: "Names \<Rightarrow> NameSet \<Rightarrow> NameSet" where
  "NameSet_insert_all xs s = fold NameSet_insert xs s"

text \<open>
  Modelled from the spec: what the engine extracts from an expression tree is defined
  elsewhere in the repository. \<open>identifiers\<close> are the columns an expression refers to (the
  spec's "every column referenced by" an expression), left to right; \<open>subqueries\<close> are
  the subqueries in it, which the spec calls "deferred subquery-derived sets".
\<close>

fun identifiers :: "ast \<Rightarrow> Names" where
  "identifiers (ASTIdentifier n) = [n]"
| "identifiers (ASTLiteral v) = []"
| "identifiers (ASTFunction f args) = concat (map identifiers args)"
| "identifiers (ASTSubquery q) = []"

fun subqueries :: "ast \<Rightarrow> string list" where
  "subqueries (ASTIdentifier n) = []"
| "subqueries (ASTLiteral v) = []"
| "subqueries (ASTFunction f args) = concat (map subqueries args)"
| "subqueries (ASTSubquery q) = [q]"

text \<open>
  Modelled from the spec: \<^verbatim>\<open>ExpressionActions\<close>, \<^verbatim>\<open>ExpressionActionsChain\<close> and
  \<^verbatim>\<open>ExpressionAnalyzer\<close> are defined elsewhere in the repository. The spec describes a step as "a
  set of newly computed/replaced columns plus a required-output column list that prunes
  everything else before the next step", and asks of the engine the "construction of
  filter/computed-column action sets from expression trees" and the "extraction of
  required-input columns for a given action set". The model works on column names: an
  action set has the columns it reads (\<open>input_columns\<close>), its actions in order, and the
  columns it leaves (\<open>sample_block\<close>). \<open>ComputeColumn e r\<close> evaluates \<open>e\<close> into the column
  \<open>r\<close>; \<open>CopyColumn\<close> is what \<^verbatim>\<open>ExpressionAction::copyColumn(from, to, can_replace)\<close>
  builds.
\<close>

datatype ExpressionAction =
    ComputeColumn ast string
  | CopyColumn string string bool

definition copyColumn :: "string \<Rightarrow> string \<Rightarrow> bool \<Rightarrow> ExpressionAction" where
  "copyColumn from_name to_name can_replace = CopyColumn from_name to_name can_replace"

record ExpressionActions =
  input_columns :: Names
  action_list :: "ExpressionAction list"
  sample_block :: Names

record Step =
  actions :: ExpressionActions
  required_output :: Names

record ExpressionActionsChain =
  steps :: "Step list"

definition new_ExpressionActions :: "Names \<Rightarrow> ExpressionActions" where
  "new_ExpressionActions cols =
     \<lparr>input_columns = cols, action_list = [], sample_block = cols\<rparr>"

fun result_name :: "ExpressionAction \<Rightarrow> string" where
  "result_name (ComputeColumn e r) = r"
| "result_name (CopyColumn from_name to_name can_replace) = to_name"

definition add_action :: "ExpressionAction \<Rightarrow> ExpressionActions \<Rightarrow> ExpressionActions" where
  "add_action a ea =
     ea\<lparr>action_list := action_list ea @ [a],
        sample_block := NameSet_insert (result_name a) (sample_block ea)\<rparr>"

definition getRequiredColumnsWithTypes :: "ExpressionActions \<Rightarrow> Names" where
  "getRequiredColumnsWithTypes ea = input_columns ea"

definition getSampleBlock :: "ExpressionActions \<Rightarrow> Names" where
  "getSampleBlock ea = sample_block ea"

text \<open>
  Modelled from the spec: the "extraction of required-input columns for a given action
  set". \<open>needed_before\<close> is what an action needs before it runs, given what is needed
  after it: an action whose result is needed needs the columns it reads instead; any
  other action is idle.
\<close>

fun needed_before :: "ExpressionAction \<Rightarrow> Names \<Rightarrow> Names" where
  "needed_before (ComputeColumn e r) needed =
     (if r \<in> set needed then NameSet_insert_all (identifiers e) (removeAll r needed)
      else needed)"
| "needed_before (CopyColumn from_name to_name can_replace) needed =
     (if to_name \<in> set needed then NameSet_insert from_name (removeAll to_name needed)
      else needed)"

text \<open>
  Modelled from the spec: \<^verbatim>\<open>ExpressionActions::finalize(output_columns)\<close>. The required
  output "prunes everything else before the next step": everything but the required
  output is pruned from the result, and so are the inputs that no needed action reads.
\<close>

definition finalize_actions :: "Names \<Rightarrow> ExpressionActions \<Rightarrow> ExpressionActions" where
  "finalize_actions output ea =
     (let needed = foldr needed_before (action_list ea) (remdups output)
      in ea\<lparr>input_columns := filter (\<lambda>c. c \<in> set needed) (input_columns ea),
            sample_block := remdups output\<rparr>)"

text \<open>
  Modelled from the spec: \<^verbatim>\<open>ExpressionActionsChain::finalize\<close>. It goes from the last
  step to the first: a step must leave its own required output and what the step after
  it reads, so that the first step requires what the whole chain needs ("what makes
  upstream stages retain columns the downstream stage needs").
\<close>

fun finalize_steps :: "Step list \<Rightarrow> Step list" where
  "finalize_steps [] = []"
| "finalize_steps (s # rest) =
     (let rest' = finalize_steps rest;
          required = required_output s @
            (case rest' of [] \<Rightarrow> [] | n # _ \<Rightarrow> getRequiredColumnsWithTypes (actions n))
      in s\<lparr>actions := finalize_actions required (actions s)\<rparr> # rest')"

definition finalize :: "ExpressionActionsChain \<Rightarrow> ExpressionActionsChain" where
  "finalize chain = chain\<lparr>steps := finalize_steps (steps chain)\<rparr>"

text \<open>
  Modelled from the spec: \<^verbatim>\<open>ExpressionActionsChain::addStep\<close>. A new step reads what the
  last step leaves ("each consumes the previous step's row set"); a chain without steps
  has no last step, and the call fails there.
\<close>

definition addStep :: "ExpressionActionsChain \<Rightarrow> error + ExpressionActionsChain" where
  "addStep chain =
     (if steps chain = [] then Inl LOGICAL_ERROR
      else Inr (chain\<lparr>steps := steps chain @
             [\<lparr>actions = new_ExpressionActions (getSampleBlock (actions (last (steps chain)))),
               required_output = []\<rparr>]\<rparr>))"

text \<open>
  Modelled from the spec: \<^verbatim>\<open>ExpressionAnalyzer\<close>, the "step-building evaluator". It is
  built from the seeded expression list and the source columns, and drops the source
  columns that the expression list does not mention: the seed has a bare reference to
  every output column, which "prevents the evaluator from discarding columns that must
  survive" (the source: "Add all output columns to prevent ExpressionAnalyzer from
  deleting them from source columns"). The sets it defers are those of the subqueries of
  the list. \<open>initChain\<close> gives a chain without steps a first step on the source columns.
\<close>

record ExpressionAnalyzer =
  query :: "ast list"
  source_columns :: NamesAndTypesList

definition new_ExpressionAnalyzer :: "ast list \<Rightarrow> NamesAndTypesList \<Rightarrow> ExpressionAnalyzer" where
  "new_ExpressionAnalyzer all_asts all_columns =
     \<lparr>query = all_asts,
      source_columns =
        filter (\<lambda>c. name c \<in> set (concat (map identifiers all_asts))) all_columns\<rparr>"

definition getSubqueriesForSets :: "ExpressionAnalyzer \<Rightarrow> string list" where
  "getSubqueriesForSets analyzer = remdups (concat (map subqueries (query analyzer)))"

definition initChain :: "ExpressionActionsChain \<Rightarrow> NamesAndTypesList \<Rightarrow> ExpressionActionsChain" where
  "initChain chain cols =
     (if steps chain = []
      then chain\<lparr>steps := [\<lparr>actions = new_ExpressionActions (map name cols),
                               required_output = []\<rparr>]\<rparr>
      else chain)"

text \<open>
  Updating the last element of a vector: \<^verbatim>\<open>stages.back()\<close>, and \<^verbatim>\<open>getLastStep()\<close> and
  \<^verbatim>\<open>getLastActions()\<close> of a chain. The source calls them where there is a last element.
\<close>

definition map_last :: "('a \<Rightarrow> 'a) \<Rightarrow> 'a list \<Rightarrow> 'a list" where
  "map_last f xs = (if xs = [] then [] else butlast xs @ [f (last xs)])"

text \<open>
  Modelled from the spec: \<^verbatim>\<open>ExpressionAnalyzer::appendExpression(chain, ast, dry_run)\<close>,
  the "construction of filter/computed-column action sets from expression trees". It
  starts the chain if it has no step, adds the computation of \<open>ast\<close> to the last step and
  requires its column from that step. The name of the column,
  \<^verbatim>\<open>ast->getColumnName()\<close>, is a parameter \<open>gcn\<close> of the model.
\<close>

definition appendExpression ::
  "(ast \<Rightarrow> string) \<Rightarrow> ExpressionAnalyzer \<Rightarrow> ExpressionActionsChain \<Rightarrow> ast \<Rightarrow> bool
   \<Rightarrow> ExpressionActionsChain" where
  "appendExpression gcn analyzer chain e dry_run =
     (let chain1 = initChain chain (source_columns analyzer)
      in chain1\<lparr>steps := map_last
           (\<lambda>s. s\<lparr>actions := add_action (ComputeColumn e (gcn e)) (actions s),
                   required_output := required_output s @ [gcn e]\<rparr>)
           (steps chain1)\<rparr>)"

section \<open>The interpreter\<close>

record Settings =
  max_threads :: nat
  merge_tree_uniform_read_distribution :: nat
  max_rows_to_transfer :: nat
  max_bytes_to_transfer :: nat
  transfer_overflow_mode :: nat

record Context =
  getSettingsRef :: Settings

record ASTSelectQuery =
  select_expression_list :: "ast list"
  where_expression :: "ast option"

datatype QueryProcessingStage = FetchColumns | WithMergeableState | Complete

record InterpreterSelectQuery =
  query_ptr :: ASTSelectQuery
  select_context :: Context
  select_storage :: IStorage
  to_stage :: QueryProcessingStage
  only_analyze :: bool

record Stage =
  deletes :: "MutationCommand list"
  update :: "MutationCommand option"
  output_columns :: NameSet
  analyzer :: "ExpressionAnalyzer option"
  expressions_chain :: ExpressionActionsChain
  delete_filter_column_names :: "string list"

definition new_Stage :: Stage where
  "new_Stage =
     \<lparr>deletes = [], update = None, output_columns = [], analyzer = None,
      expressions_chain = \<lparr>steps = []\<rparr>, delete_filter_column_names = []\<rparr>"

record MutationsInterpreter =
  storage :: IStorage
  commands :: "MutationCommand list"
  current_context :: Context
  stages :: "Stage list"
  interpreter_select :: "InterpreterSelectQuery option"
  is_prepared :: bool

definition new_MutationsInterpreter ::
  "IStorage \<Rightarrow> MutationCommand list \<Rightarrow> Context \<Rightarrow> MutationsInterpreter" where
  "new_MutationsInterpreter st cmds ctx =
     \<lparr>storage = st, commands = cmds, current_context = ctx, stages = [],
      interpreter_select = None, is_prepared = False\<rparr>"

subsection \<open>Breaking the commands into stages\<close>

text \<open>
  One iteration of the loop over the commands. \<^verbatim>\<open>stages.back()\<close> is the last element;
  the loop starts after \<^verbatim>\<open>stages.emplace_back()\<close>, so there is one.
\<close>

definition emplace_back :: "Stage list \<Rightarrow> Stage list" where
  "emplace_back sts = sts @ [new_Stage]"

definition stage_command :: "Stage list \<Rightarrow> MutationCommand \<Rightarrow> error + Stage list" where
  "stage_command sts command =
     (let sts1 = (if update (last sts) \<noteq> None then emplace_back sts else sts)
      in if type command = DELETE
         then Inr (map_last (\<lambda>s. s\<lparr>deletes := deletes s @ [command]\<rparr>) sts1)
         else if type command = UPDATE
         then (let sts2 = (if length sts1 = 1 then emplace_back sts1 else sts1)
               in Inr (map_last (\<lambda>s. s\<lparr>update := Some command\<rparr>) sts2))
         else Inl UNKNOWN_MUTATION_COMMAND)"

fun stage_commands :: "Stage list \<Rightarrow> MutationCommand list \<Rightarrow> error + Stage list" where
  "stage_commands sts [] = Inr sts"
| "stage_commands sts (command # rest) =
     (case stage_command sts command of
        Inl e \<Rightarrow> Inl e
      | Inr sts' \<Rightarrow> stage_commands sts' rest)"

subsection \<open>The forward pass over the output columns\<close>

definition calculate_output_columns :: "NamesAndTypesList \<Rightarrow> Stage list \<Rightarrow> nat \<Rightarrow> Stage list" where
  "calculate_output_columns all_columns sts i =
     (if deletes (sts ! i) \<noteq> []
      then sts[i := (sts ! i)\<lparr>output_columns :=
             NameSet_insert_all (map name all_columns) (output_columns (sts ! i))\<rparr>]
      else
        (let sts1 = (if i > 0
                     then sts[i := (sts ! i)\<lparr>output_columns := output_columns (sts ! (i - 1))\<rparr>]
                     else sts)
         in case update (sts1 ! i) of
              None \<Rightarrow> sts1
            | Some upd \<Rightarrow>
                if length (output_columns (sts1 ! i)) < length all_columns
                then sts1[i := (sts1 ! i)\<lparr>output_columns :=
                       NameSet_insert_all (map fst (column_to_update_expression upd))
                         (output_columns (sts1 ! i))\<rparr>]
                else sts1))"

definition forward_pass :: "NamesAndTypesList \<Rightarrow> Stage list \<Rightarrow> Stage list" where
  "forward_pass all_columns sts =
     foldl (calculate_output_columns all_columns) sts [0..<length sts]"

subsection \<open>The backward pass: expression chains and required input\<close>

fun negate_predicates :: "MutationCommand list \<Rightarrow> error + ast list" where
  "negate_predicates [] = Inr []"
| "negate_predicates (command # rest) =
     (case predicate command of
        None \<Rightarrow> Inl UNDEFINED_BEHAVIOUR
      | Some p \<Rightarrow>
          (case negate_predicates rest of
             Inl e \<Rightarrow> Inl e
           | Inr ps \<Rightarrow> Inr (makeASTFunction ''not'' [clone p] # ps)))"

definition updated_column :: "IStorage \<Rightarrow> MutationCommand \<Rightarrow> string \<times> ast \<Rightarrow> error + ast" where
  "updated_column st upd kv =
     (case predicate upd of
        None \<Rightarrow> Inl UNDEFINED_BEHAVIOUR
      | Some p \<Rightarrow>
          (case getColumn st (fst kv) of
             Inl e \<Rightarrow> Inl e
           | Inr col \<Rightarrow>
               Inr (makeASTFunction ''CAST''
                     [makeASTFunction ''if'' [clone p, clone (snd kv), ASTIdentifier (fst kv)],
                      ASTLiteral (String (type_name col))])))"

fun updated_columns ::
  "IStorage \<Rightarrow> MutationCommand \<Rightarrow> (string \<times> ast) list \<Rightarrow> error + (string \<times> ast) list" where
  "updated_columns st upd [] = Inr []"
| "updated_columns st upd (kv # kvs) =
     (case updated_column st upd kv of
        Inl e \<Rightarrow> Inl e
      | Inr u \<Rightarrow>
          (case updated_columns st upd kvs of
             Inl e \<Rightarrow> Inl e
           | Inr us \<Rightarrow> Inr ((fst kv, u) # us)))"

text \<open>\<^verbatim>\<open>unordered_map::emplace\<close> keeps the entry of a key that is already there.\<close>

definition emplace :: "string \<times> ast \<Rightarrow> (string \<times> ast) list \<Rightarrow> (string \<times> ast) list" where
  "emplace kv m = (if fst kv \<in> set (map fst m) then m else m @ [kv])"

definition addStep_unless_empty :: "ExpressionActionsChain \<Rightarrow> error + ExpressionActionsChain" where
  "addStep_unless_empty chain = (if steps chain \<noteq> [] then addStep chain else Inr chain)"

fun append_delete_filters ::
  "(ast \<Rightarrow> string) \<Rightarrow> ExpressionAnalyzer \<Rightarrow> bool \<Rightarrow> ast list
   \<Rightarrow> ExpressionActionsChain \<times> string list \<Rightarrow> error + ExpressionActionsChain \<times> string list" where
  "append_delete_filters gcn an dry_run [] (chain, names) = Inr (chain, names)"
| "append_delete_filters gcn an dry_run (e # rest) (chain, names) =
     (case addStep_unless_empty chain of
        Inl err \<Rightarrow> Inl err
      | Inr chain1 \<Rightarrow>
          append_delete_filters gcn an dry_run rest
            (appendExpression gcn an chain1 e dry_run, names @ [gcn e]))"

definition add_to_last_actions :: "ExpressionAction \<Rightarrow> ExpressionActionsChain \<Rightarrow> ExpressionActionsChain" where
  "add_to_last_actions a chain =
     chain\<lparr>steps := map_last (\<lambda>s. s\<lparr>actions := add_action a (actions s)\<rparr>) (steps chain)\<rparr>"

definition append_update ::
  "(ast \<Rightarrow> string) \<Rightarrow> ExpressionAnalyzer \<Rightarrow> bool \<Rightarrow> (string \<times> ast) list
   \<Rightarrow> ExpressionActionsChain \<Rightarrow> error + ExpressionActionsChain" where
  "append_update gcn an dry_run column_to_updated chain =
     (case addStep_unless_empty chain of
        Inl err \<Rightarrow> Inl err
      | Inr chain1 \<Rightarrow>
          (let chain2 = fold (\<lambda>kv c. appendExpression gcn an c (snd kv) dry_run)
                          column_to_updated chain1
           in Inr (fold (\<lambda>kv c. add_to_last_actions (copyColumn (gcn (snd kv)) (fst kv) True) c)
                     column_to_updated chain2)))"

definition prepare_stage ::
  "(ast \<Rightarrow> string) \<Rightarrow> IStorage \<Rightarrow> NamesAndTypesList \<Rightarrow> bool \<Rightarrow> Stage \<Rightarrow> error + Stage" where
  "prepare_stage gcn st all_columns dry_run stage =
     (case negate_predicates (deletes stage) of
        Inl e \<Rightarrow> Inl e
      | Inr delete_filter_columns \<Rightarrow>
     (case (case update stage of
              None \<Rightarrow> Inr []
            | Some upd \<Rightarrow> updated_columns st upd (column_to_update_expression upd)) of
        Inl e \<Rightarrow> Inl e
      | Inr updated \<Rightarrow>
     (let column_to_updated = fold emplace updated [];
          all_asts = delete_filter_columns @ map snd updated
                       @ map ASTIdentifier (output_columns stage);
          an = new_ExpressionAnalyzer all_asts all_columns
      in case append_delete_filters gcn an dry_run delete_filter_columns
                (expressions_chain stage, delete_filter_column_names stage) of
           Inl e \<Rightarrow> Inl e
         | Inr (chain1, names) \<Rightarrow>
     (case (if update stage \<noteq> None
            then append_update gcn an dry_run column_to_updated chain1
            else Inr chain1) of
        Inl e \<Rightarrow> Inl e
      | Inr chain2 \<Rightarrow>
     (case addStep chain2 of
        Inl e \<Rightarrow> Inl e
      | Inr chain3 \<Rightarrow>
          Inr (stage\<lparr>analyzer := Some an,
                 expressions_chain := finalize
                   (chain3\<lparr>steps := map_last
                      (\<lambda>s. s\<lparr>required_output := output_columns stage\<rparr>) (steps chain3)\<rparr>),
                 delete_filter_column_names := names\<rparr>))))))"

text \<open>
  One iteration of the backward loop, for stage \<open>i > 0\<close>: build the chain of stage \<open>i\<close>,
  then insert what its first step requires into the output columns of stage \<open>i - 1\<close>.
\<close>

definition propagate_required :: "Stage list \<Rightarrow> nat \<Rightarrow> Stage list" where
  "propagate_required sts i =
     sts[i - 1 := (sts ! (i - 1))\<lparr>output_columns :=
       NameSet_insert_all
         (getRequiredColumnsWithTypes (actions (hd (steps (expressions_chain (sts ! i))))))
         (output_columns (sts ! (i - 1)))\<rparr>]"

definition backward_step ::
  "(ast \<Rightarrow> string) \<Rightarrow> IStorage \<Rightarrow> NamesAndTypesList \<Rightarrow> bool \<Rightarrow> Stage list \<Rightarrow> nat
   \<Rightarrow> error + Stage list" where
  "backward_step gcn st all_columns dry_run sts i =
     (case prepare_stage gcn st all_columns dry_run (sts ! i) of
        Inl e \<Rightarrow> Inl e
      | Inr stage \<Rightarrow> Inr (propagate_required (sts[i := stage]) i))"

text \<open>The loop \<^verbatim>\<open>for (i = stages.size() - 1; i > 0; --i)\<close>, started at \<open>i\<close>.\<close>

fun backward_pass ::
  "(ast \<Rightarrow> string) \<Rightarrow> IStorage \<Rightarrow> NamesAndTypesList \<Rightarrow> bool \<Rightarrow> nat \<Rightarrow> Stage list
   \<Rightarrow> error + Stage list" where
  "backward_pass gcn st all_columns dry_run 0 sts = Inr sts"
| "backward_pass gcn st all_columns dry_run (Suc k) sts =
     (case backward_step gcn st all_columns dry_run sts (Suc k) of
        Inl e \<Rightarrow> Inl e
      | Inr sts' \<Rightarrow> backward_pass gcn st all_columns dry_run k sts')"

subsection \<open>The first stage as a SELECT, and \<^verbatim>\<open>prepare\<close>\<close>

definition first_stage_select :: "Stage \<Rightarrow> error + ASTSelectQuery" where
  "first_stage_select stage0 =
     (let projection = map ASTIdentifier (output_columns stage0)
      in if deletes stage0 \<noteq> []
         then (case negate_predicates (deletes stage0) of
                 Inl e \<Rightarrow> Inl e
               | Inr delete_filters \<Rightarrow>
                   Inr \<lparr>select_expression_list = projection,
                        where_expression =
                          Some (if length (deletes stage0) = 1 then hd delete_filters
                                else ASTFunction ''and'' delete_filters)\<rparr>)
         else Inr \<lparr>select_expression_list = projection, where_expression = None\<rparr>)"

definition prepare ::
  "(ast \<Rightarrow> string) \<Rightarrow> bool \<Rightarrow> MutationsInterpreter \<Rightarrow> error + MutationsInterpreter" where
  "prepare gcn dry_run mi =
     (if is_prepared mi then Inl LOGICAL_ERROR
      else if commands mi = [] then Inl LOGICAL_ERROR
      else case validateUpdateColumns (storage mi) (commands mi) of
        Inl e \<Rightarrow> Inl e
      | Inr _ \<Rightarrow>
     (let all_columns = getAllPhysical (getColumns (storage mi))
      in case stage_commands (emplace_back (stages mi)) (commands mi) of
        Inl e \<Rightarrow> Inl e
      | Inr sts1 \<Rightarrow>
     (let sts2 = forward_pass all_columns sts1
      in case backward_pass gcn (storage mi) all_columns dry_run (length sts2 - 1) sts2 of
        Inl e \<Rightarrow> Inl e
      | Inr sts3 \<Rightarrow>
     (case first_stage_select (sts3 ! 0) of
        Inl e \<Rightarrow> Inl e
      | Inr select \<Rightarrow>
          Inr (mi\<lparr>stages := sts3,
                 interpreter_select := Some
                   \<lparr>query_ptr = select, select_context = current_context mi,
                    select_storage = storage mi, to_stage = Complete,
                    only_analyze = dry_run\<rparr>,
                 is_prepared := True\<rparr>)))))"

subsection \<open>The streams of the later stages, \<^verbatim>\<open>validate\<close> and \<^verbatim>\<open>execute\<close>\<close>

record SizeLimits =
  max_rows :: nat
  max_bytes :: nat
  overflow_mode :: nat

datatype BlockInputStream =
    InterpreterSelectStream InterpreterSelectQuery
  | NullBlockInputStream Names
  | FilterBlockInputStream BlockInputStream ExpressionActions string
  | ExpressionBlockInputStream BlockInputStream ExpressionActions
  | CreatingSetsBlockInputStream BlockInputStream "string list" SizeLimits
  | MaterializingBlockInputStream BlockInputStream

text \<open>
  Modelled from the spec: the stream classes and \<^verbatim>\<open>InterpreterSelectQuery\<close> are defined
  elsewhere in the repository. The read query projects its select list; a filter stream applies its
  step, will "retain only rows where the named synthesized boolean column is true and
  drop that helper column"; an expression stream will "apply the step's column
  computation/replacement and then prune to that step's required-output list"; building
  sets and materializing leave the columns as they are.
\<close>

definition select_getSampleBlock :: "(ast \<Rightarrow> string) \<Rightarrow> InterpreterSelectQuery \<Rightarrow> Names" where
  "select_getSampleBlock gcn isq = map gcn (select_expression_list (query_ptr isq))"

fun getHeader :: "(ast \<Rightarrow> string) \<Rightarrow> BlockInputStream \<Rightarrow> Names" where
  "getHeader gcn (InterpreterSelectStream isq) = select_getSampleBlock gcn isq"
| "getHeader gcn (NullBlockInputStream header) = header"
| "getHeader gcn (FilterBlockInputStream inp ea filter_column) =
     removeAll filter_column (getSampleBlock ea)"
| "getHeader gcn (ExpressionBlockInputStream inp ea) = getSampleBlock ea"
| "getHeader gcn (CreatingSetsBlockInputStream inp sets limits) = getHeader gcn inp"
| "getHeader gcn (MaterializingBlockInputStream inp) = getHeader gcn inp"

text \<open>The inner loop of \<^verbatim>\<open>addStreamsForLaterStages\<close> over the steps, from index \<open>i\<close>.\<close>

fun add_step_streams :: "string list \<Rightarrow> nat \<Rightarrow> Step list \<Rightarrow> BlockInputStream \<Rightarrow> BlockInputStream" where
  "add_step_streams names i [] inp = inp"
| "add_step_streams names i (step # rest) inp =
     add_step_streams names (Suc i) rest
       (if i < length names
        then FilterBlockInputStream inp (actions step) (names ! i)
        else ExpressionBlockInputStream inp (actions step))"

definition add_stage_streams :: "Context \<Rightarrow> Stage \<Rightarrow> BlockInputStream \<Rightarrow> error + BlockInputStream" where
  "add_stage_streams ctx stage inp =
     (let in1 = add_step_streams (delete_filter_column_names stage) 0
                  (steps (expressions_chain stage)) inp
      in case analyzer stage of
           None \<Rightarrow> Inl UNDEFINED_BEHAVIOUR
         | Some an \<Rightarrow>
             (let subqueries_for_sets = getSubqueriesForSets an
              in if subqueries_for_sets \<noteq> []
                 then Inr (CreatingSetsBlockInputStream in1 subqueries_for_sets
                        \<lparr>max_rows = max_rows_to_transfer (getSettingsRef ctx),
                         max_bytes = max_bytes_to_transfer (getSettingsRef ctx),
                         overflow_mode = transfer_overflow_mode (getSettingsRef ctx)\<rparr>)
                 else Inr in1))"

fun add_stages_streams :: "Context \<Rightarrow> Stage list \<Rightarrow> BlockInputStream \<Rightarrow> error + BlockInputStream" where
  "add_stages_streams ctx [] inp = Inr inp"
| "add_stages_streams ctx (stage # rest) inp =
     (case add_stage_streams ctx stage inp of
        Inl e \<Rightarrow> Inl e
      | Inr in1 \<Rightarrow> add_stages_streams ctx rest in1)"

definition addStreamsForLaterStages ::
  "MutationsInterpreter \<Rightarrow> BlockInputStream \<Rightarrow> error + BlockInputStream" where
  "addStreamsForLaterStages mi inp =
     (case add_stages_streams (current_context mi) (drop 1 (stages mi)) inp of
        Inl e \<Rightarrow> Inl e
      | Inr in1 \<Rightarrow> Inr (MaterializingBlockInputStream in1))"

text \<open>
  \<^verbatim>\<open>validate\<close> returns nothing in the source; the model returns the header it inspects,
  beside the interpreter as \<^verbatim>\<open>prepare\<close> left it.
\<close>

definition validate ::
  "(ast \<Rightarrow> string) \<Rightarrow> MutationsInterpreter \<Rightarrow> error + MutationsInterpreter \<times> Names" where
  "validate gcn mi =
     (case prepare gcn True mi of
        Inl e \<Rightarrow> Inl e
      | Inr mi1 \<Rightarrow>
          (case interpreter_select mi1 of
             None \<Rightarrow> Inl UNDEFINED_BEHAVIOUR
           | Some isq \<Rightarrow>
               (case addStreamsForLaterStages mi1
                       (NullBlockInputStream (select_getSampleBlock gcn isq)) of
                  Inl e \<Rightarrow> Inl e
                | Inr s \<Rightarrow> Inr (mi1, getHeader gcn s))))"

definition execute ::
  "(ast \<Rightarrow> string) \<Rightarrow> MutationsInterpreter \<Rightarrow> error + MutationsInterpreter \<times> BlockInputStream" where
  "execute gcn mi =
     (case prepare gcn False mi of
        Inl e \<Rightarrow> Inl e
      | Inr mi1 \<Rightarrow>
          (case interpreter_select mi1 of
             None \<Rightarrow> Inl UNDEFINED_BEHAVIOUR
           | Some isq \<Rightarrow>
               (case addStreamsForLaterStages mi1 (InterpreterSelectStream isq) of
                  Inl e \<Rightarrow> Inl e
                | Inr s \<Rightarrow> Inr (mi1, s))))"

subsection \<open>\<^verbatim>\<open>isStorageTouchedByMutations\<close>\<close>

text \<open>
  Modelled from the spec: \<^verbatim>\<open>Block\<close>, the "result batch", is defined elsewhere in the
  repository. A block is its columns, by name; \<open>rows\<close> is the length of the first one;
  \<open>getByName\<close> fails on a name that is not there. The source reads the first block of
  the executed query: \<open>read_block\<close>, a parameter of the model, stands for
  \<^verbatim>\<open>interpreter_select.execute().in->read()\<close>.
\<close>

type_synonym Block = "(string \<times> Field list) list"

definition rows :: "Block \<Rightarrow> nat" where
  "rows block = (case block of [] \<Rightarrow> 0 | c # _ \<Rightarrow> length (snd c))"

definition getByName :: "Block \<Rightarrow> string \<Rightarrow> error + Field list" where
  "getByName block n =
     (case map_of block n of None \<Rightarrow> Inl NOT_FOUND_COLUMN_IN_BLOCK | Some col \<Rightarrow> Inr col)"

definition first_UInt64 :: "Field list \<Rightarrow> error + 64 word" where
  "first_UInt64 col =
     (case col of
        [] \<Rightarrow> Inl UNDEFINED_BEHAVIOUR
      | v # _ \<Rightarrow> (case v of UInt64 w \<Rightarrow> Inr w | _ \<Rightarrow> Inl UNDEFINED_BEHAVIOUR))"

fun touches_all_rows :: "MutationCommand list \<Rightarrow> bool" where
  "touches_all_rows [] = False"
| "touches_all_rows (command # rest) =
     (if predicate command = None then True else touches_all_rows rest)"

text \<open>The predicates pushed into the \<^verbatim>\<open>or\<close> node; none of them is null where it is built.\<close>

fun predicates :: "MutationCommand list \<Rightarrow> ast list" where
  "predicates [] = []"
| "predicates (command # rest) =
     (case predicate command of None \<Rightarrow> predicates rest | Some p \<Rightarrow> p # predicates rest)"

definition count_select :: "MutationCommand list \<Rightarrow> ASTSelectQuery" where
  "count_select cmds =
     \<lparr>select_expression_list = [ASTFunction ''count'' []],
      where_expression =
        (if length cmds = 1 then predicate (hd cmds)
         else Some (ASTFunction ''or'' (predicates cmds)))\<rparr>"

definition count_interpreter_select :: "MutationsInterpreter \<Rightarrow> InterpreterSelectQuery" where
  "count_interpreter_select mi =
     (let context_copy = current_context mi;
          context_copy1 = context_copy\<lparr>getSettingsRef :=
            (getSettingsRef context_copy)\<lparr>merge_tree_uniform_read_distribution := 0\<rparr>\<rparr>;
          context_copy2 = context_copy1\<lparr>getSettingsRef :=
            (getSettingsRef context_copy1)\<lparr>max_threads := 1\<rparr>\<rparr>
      in \<lparr>query_ptr = count_select (commands mi), select_context = context_copy2,
          select_storage = storage mi, to_stage = Complete, only_analyze = False\<rparr>)"

definition count_result :: "Block \<Rightarrow> error + bool" where
  "count_result block =
     (if rows block = 0 then Inr False
      else if rows block \<noteq> 1 then Inl LOGICAL_ERROR
      else case getByName block ''count()'' of
             Inl e \<Rightarrow> Inl e
           | Inr col \<Rightarrow>
               (case first_UInt64 col of
                  Inl e \<Rightarrow> Inl e
                | Inr count \<Rightarrow> Inr (count \<noteq> 0)))"

text \<open>
  The method is \<^verbatim>\<open>const\<close>; the model passes the interpreter through, so that what the
  call leaves of it can be stated.
\<close>

definition isStorageTouchedByMutations ::
  "(InterpreterSelectQuery \<Rightarrow> error + Block) \<Rightarrow> MutationsInterpreter
   \<Rightarrow> (error + bool) \<times> MutationsInterpreter" where
  "isStorageTouchedByMutations read_block mi =
     (if commands mi = [] then (Inr False, mi)
      else if touches_all_rows (commands mi) then (Inr True, mi)
      else (case read_block (count_interpreter_select mi) of
              Inl e \<Rightarrow> (Inl e, mi)
            | Inr block \<Rightarrow> (count_result block, mi)))"

section \<open>Notions used in the statements\<close>

text \<open>The commands of a stage in the order they run: its deletes, then its update.\<close>

definition stage_commands_of :: "Stage \<Rightarrow> MutationCommand list" where
  "stage_commands_of s = deletes s @ (case update s of None \<Rightarrow> [] | Some u \<Rightarrow> [u])"

text \<open>A stage that only staging has touched.\<close>

definition unprepared :: "Stage \<Rightarrow> bool" where
  "unprepared s \<longleftrightarrow> output_columns s = [] \<and> analyzer s = None
     \<and> steps (expressions_chain s) = [] \<and> delete_filter_column_names s = []"

text \<open>
  The shape of a staged list: a first stage without update, every stage between the
  first and the last with an update, no later stage empty, deletes and updates of the
  right tag.
\<close>

definition staged :: "Stage list \<Rightarrow> bool" where
  "staged sts \<longleftrightarrow> sts \<noteq> [] \<and> update (hd sts) = None
     \<and> (\<forall>s \<in> set (butlast (tl sts)). update s \<noteq> None)
     \<and> (\<forall>s \<in> set (tl sts). stage_commands_of s \<noteq> [])
     \<and> (\<forall>s \<in> set sts. unprepared s \<and> (\<forall>d \<in> set (deletes s). type d = DELETE)
           \<and> (\<forall>u. update s = Some u \<longrightarrow> type u = UPDATE))"

text \<open>The target columns of the Update commands of a list, in order.\<close>

definition update_targets :: "MutationCommand list \<Rightarrow> string list" where
  "update_targets cmds =
     concat (map (\<lambda>c. map fst (column_to_update_expression c))
                 (filter (\<lambda>c. type c = UPDATE) cmds))"

text \<open>
  The validation rule in the words of the spec, for a list of target columns: the first
  column that is not an ordinary one decides, \<open>CannotUpdateColumn\<close> if it is a
  materialized column and \<open>NoSuchColumn\<close> otherwise.
\<close>

definition validation_result :: "IStorage \<Rightarrow> string list \<Rightarrow> error + unit" where
  "validation_result st targets =
     (case find (\<lambda>n. n \<notin> set (map name (ordinary (getColumns st)))) targets of
        None \<Rightarrow> Inr ()
      | Some n \<Rightarrow>
          if n \<in> set (map name (materialized (getColumns st)))
          then Inl CANNOT_UPDATE_COLUMN else Inl NO_SUCH_COLUMN_IN_TABLE)"

text \<open>
  The forward pass, stage by stage. \<open>code_output_columns\<close> is what one iteration of the
  loop leaves in \<open>output_columns\<close> of stage \<open>i\<close>, given the set of the stage before;
  \<open>forward_output\<close> chains it from stage 0. \<open>spec_output_columns\<close> is the rule in the
  words of the spec, on sets.
\<close>

definition code_output_columns :: "NamesAndTypesList \<Rightarrow> nat \<Rightarrow> NameSet \<Rightarrow> Stage \<Rightarrow> NameSet" where
  "code_output_columns all_columns i prev s =
     (if deletes s \<noteq> []
      then NameSet_insert_all (map name all_columns) (output_columns s)
      else (let own = (if i > 0 then prev else output_columns s)
            in case update s of
                 None \<Rightarrow> own
               | Some upd \<Rightarrow>
                   if length own < length all_columns
                   then NameSet_insert_all (map fst (column_to_update_expression upd)) own
                   else own))"

definition spec_output_columns :: "NamesAndTypesList \<Rightarrow> string set \<Rightarrow> Stage \<Rightarrow> string set" where
  "spec_output_columns all_columns prev s =
     (if deletes s \<noteq> [] then set (map name all_columns)
      else case update s of
             None \<Rightarrow> prev
           | Some upd \<Rightarrow>
               if prev \<noteq> set (map name all_columns)
               then prev \<union> set (map fst (column_to_update_expression upd))
               else prev)"

fun forward_output :: "NamesAndTypesList \<Rightarrow> Stage list \<Rightarrow> nat \<Rightarrow> NameSet" where
  "forward_output all_columns sts 0 = code_output_columns all_columns 0 [] (sts ! 0)"
| "forward_output all_columns sts (Suc i) =
     code_output_columns all_columns (Suc i) (forward_output all_columns sts i) (sts ! Suc i)"

text \<open>Every update of the stages targets columns of the table.\<close>

definition targets_known :: "NamesAndTypesList \<Rightarrow> Stage list \<Rightarrow> bool" where
  "targets_known all_columns sts \<longleftrightarrow>
     (\<forall>s \<in> set sts. \<forall>u. update s = Some u \<longrightarrow>
        set (map fst (column_to_update_expression u)) \<subseteq> set (map name all_columns))"

text \<open>What the first step of the chain of a stage requires as input.\<close>

definition required_input :: "Stage \<Rightarrow> Names" where
  "required_input s = getRequiredColumnsWithTypes (actions (hd (steps (expressions_chain s))))"

text \<open>
  The output columns of all stages after \<^verbatim>\<open>prepare\<close>, and the property that each one
  contains the one before.
\<close>

fun each_contains_previous :: "NameSet list \<Rightarrow> bool" where
  "each_contains_previous (a # b # rest) = (set a \<subseteq> set b \<and> each_contains_previous (b # rest))"
| "each_contains_previous rest = True"

definition output_columns_after_prepare ::
  "(ast \<Rightarrow> string) \<Rightarrow> bool \<Rightarrow> MutationsInterpreter \<Rightarrow> error + NameSet list" where
  "output_columns_after_prepare gcn dry_run mi =
     (case prepare gcn dry_run mi of
        Inl e \<Rightarrow> Inl e
      | Inr mi' \<Rightarrow> Inr (map output_columns (stages mi')))"

text \<open>
  The WHERE clause of the first stage in the words of the spec, from the predicates of
  its deletes: none without deletes, \<open>not(p)\<close> for the lone delete, the \<open>and\<close> of the
  negations in order for more.
\<close>

definition first_stage_where :: "ast list \<Rightarrow> ast option" where
  "first_stage_where ps =
     (case ps of
        [] \<Rightarrow> None
      | [p] \<Rightarrow> Some (ASTFunction ''not'' [p])
      | _ \<Rightarrow> Some (ASTFunction ''and'' (map (\<lambda>p. ASTFunction ''not'' [p]) ps)))"

text \<open>
  The WHERE clause of the counting query, from the predicates of the commands: the
  predicate of the lone command, the \<open>or\<close> of all of them otherwise.
\<close>

definition count_where :: "ast list \<Rightarrow> ast option" where
  "count_where ps = (case ps of [p] \<Rightarrow> Some p | _ \<Rightarrow> Some (ASTFunction ''or'' ps))"

text \<open>
  The expression \<^verbatim>\<open>prepare\<close> is to build for an updated column:
  \<open>CAST(if(predicate, replacement, column), 'type of the column')\<close>.
\<close>

definition cast_if :: "ast \<Rightarrow> ast \<Rightarrow> string \<Rightarrow> string \<Rightarrow> ast" where
  "cast_if p e column_name ty =
     ASTFunction ''CAST''
       [ASTFunction ''if'' [p, e, ASTIdentifier column_name], ASTLiteral (String ty)]"

text \<open>
  Modelled from the spec: the functions \<open>if\<close> and \<open>CAST\<close> belong to the expression engine,
  which is defined elsewhere in the repository. The spec says of the synthesized expression that "the
  conditional guarantees rows not matching the predicate retain their original value".
  The evaluation of an expression on a row takes the conditional as that: the second
  argument where the first is true, the third otherwise (a null is not true). Every
  other function, \<open>CAST\<close> among them, is read from the parameter \<open>fn\<close>.
\<close>

definition is_true :: "Field \<Rightarrow> bool" where
  "is_true v = (case v of UInt64 w \<Rightarrow> w \<noteq> 0 | Int64 w \<Rightarrow> w \<noteq> 0 | _ \<Rightarrow> False)"

fun eval_ast :: "(string \<Rightarrow> Field list \<Rightarrow> Field) \<Rightarrow> (string \<Rightarrow> Field) \<Rightarrow> ast \<Rightarrow> Field" where
  "eval_ast fn row (ASTIdentifier n) = row n"
| "eval_ast fn row (ASTLiteral v) = v"
| "eval_ast fn row (ASTFunction f args) =
     (case args of
        [c, a, b] \<Rightarrow>
          if f = ''if''
          then (if is_true (eval_ast fn row c) then eval_ast fn row a else eval_ast fn row b)
          else fn f [eval_ast fn row c, eval_ast fn row a, eval_ast fn row b]
      | _ \<Rightarrow> fn f (map (eval_ast fn row) args))"
| "eval_ast fn row (ASTSubquery q) = fn q []"

text \<open>The actions of the last step of a chain.\<close>

definition last_action_list :: "ExpressionActionsChain \<Rightarrow> ExpressionAction list" where
  "last_action_list chain =
     (if steps chain = [] then [] else action_list (actions (last (steps chain))))"






subsection \<open>A table and some commands\<close>

text \<open>A way to name the column of an expression: the text of the expression.\<close>

fun expression_text :: "ast \<Rightarrow> string" where
  "expression_text (ASTIdentifier n) = n"
| "expression_text (ASTLiteral v) = (case v of String s \<Rightarrow> s | _ \<Rightarrow> ''?'')"
| "expression_text (ASTFunction f args) =
     f @ ''('' @ concat (map (\<lambda>a. expression_text a @ '','') args) @ '')''"
| "expression_text (ASTSubquery q) = q"

definition ex_storage :: IStorage where
  "ex_storage =
     \<lparr>getColumns =
        \<lparr>ordinary = [\<lparr>name = ''a'', type_name = ''UInt8''\<rparr>,
                     \<lparr>name = ''b'', type_name = ''UInt8''\<rparr>,
                     \<lparr>name = ''c'', type_name = ''UInt8''\<rparr>],
         materialized = [\<lparr>name = ''m'', type_name = ''UInt8''\<rparr>]\<rparr>\<rparr>"

definition ex_context :: Context where
  "ex_context =
     \<lparr>getSettingsRef =
        \<lparr>max_threads = 8, merge_tree_uniform_read_distribution = 1,
         max_rows_to_transfer = 0, max_bytes_to_transfer = 0,
         transfer_overflow_mode = 0\<rparr>\<rparr>"

text \<open>\<^verbatim>\<open>UPDATE a = b WHERE c\<close>, \<^verbatim>\<open>DELETE WHERE b\<close>, \<^verbatim>\<open>UPDATE m = b WHERE c\<close>,
  \<^verbatim>\<open>UPDATE z = b WHERE c\<close> and a command of another tag.\<close>

definition ex_update :: MutationCommand where
  "ex_update =
     \<lparr>type = UPDATE, predicate = Some (ASTIdentifier ''c''),
      column_to_update_expression = [(''a'', ASTIdentifier ''b'')]\<rparr>"

definition ex_delete :: MutationCommand where
  "ex_delete =
     \<lparr>type = DELETE, predicate = Some (ASTIdentifier ''b''),
      column_to_update_expression = []\<rparr>"

definition ex_update_materialized :: MutationCommand where
  "ex_update_materialized =
     \<lparr>type = UPDATE, predicate = Some (ASTIdentifier ''c''),
      column_to_update_expression = [(''m'', ASTIdentifier ''b'')]\<rparr>"

definition ex_update_missing :: MutationCommand where
  "ex_update_missing =
     \<lparr>type = UPDATE, predicate = Some (ASTIdentifier ''c''),
      column_to_update_expression = [(''z'', ASTIdentifier ''b'')]\<rparr>"

definition ex_other :: MutationCommand where
  "ex_other = \<lparr>type = OTHER, predicate = None, column_to_update_expression = []\<rparr>"

definition ex_columns :: NamesAndTypesList where
  "ex_columns = getAllPhysical (getColumns ex_storage)"

definition ex_stages :: "Stage list" where
  "ex_stages = [new_Stage, new_Stage\<lparr>update := Some ex_update\<rparr>]"

definition ex_interpreter :: MutationsInterpreter where
  "ex_interpreter = new_MutationsInterpreter ex_storage [ex_update] ex_context"

definition ex_prepared :: MutationsInterpreter where
  "ex_prepared = projr (prepare expression_text False ex_interpreter)"

definition ex_two_deletes :: MutationsInterpreter where
  "ex_two_deletes =
     new_MutationsInterpreter ex_storage
       [ex_delete, ex_delete\<lparr>predicate := Some (ASTIdentifier ''c'')\<rparr>] ex_context"

definition ex_two_deletes_prepared :: MutationsInterpreter where
  "ex_two_deletes_prepared = projr (prepare expression_text True ex_two_deletes)"

definition ex_update_delete :: MutationsInterpreter where
  "ex_update_delete = new_MutationsInterpreter ex_storage [ex_update, ex_delete] ex_context"

definition ex_read_zero :: "InterpreterSelectQuery \<Rightarrow> error + Block" where
  "ex_read_zero isq = Inr [(''count()'', [UInt64 0])]"

definition ex_read_fails :: "InterpreterSelectQuery \<Rightarrow> error + Block" where
  "ex_read_fails isq = Inl LOGICAL_ERROR"




definition ex_row :: "string \<Rightarrow> Field" where
  "ex_row n = (if n = ''a'' then UInt64 7 else if n = ''b'' then UInt64 9 else UInt64 0)"

definition ex_functions :: "string \<Rightarrow> Field list \<Rightarrow> Field" where
  "ex_functions f args = (if f = ''CAST'' then hd args else Null)"




section \<open>Validation of the update columns\<close>

lemma ex_types [simp]:
  "type ex_delete = DELETE" "type ex_update = UPDATE" "type ex_other = OTHER"
  "type ex_update_materialized = UPDATE" "type ex_update_missing = UPDATE"
  by (simp_all add: ex_delete_def ex_update_def ex_other_def ex_update_materialized_def
      ex_update_missing_def)


lemma has_column_iff: "has_column n cols \<longleftrightarrow> n \<in> set (map name cols)"
  by (induction cols) auto

lemma validateUpdateColumn_eq:
  "validateUpdateColumn st n = validation_result st [n]"
  by (simp add: validateUpdateColumn_def validation_result_def has_column_iff)

lemma validation_result_Cons:
  "validation_result st (n # ns) =
     (case validation_result st [n] of Inl e \<Rightarrow> Inl e | Inr _ \<Rightarrow> validation_result st ns)"
  by (simp add: validation_result_def)

lemma validation_result_append:
  "validation_result st (ms @ ns) =
     (case validation_result st ms of Inl e \<Rightarrow> Inl e | Inr _ \<Rightarrow> validation_result st ns)"
  by (induction ms) (simp_all add: validation_result_def split: sum.splits)

lemma validateUpdateExpressions_eq:
  "validateUpdateExpressions st kvs = validation_result st (map fst kvs)"
proof (induction kvs)
  case Nil
  show ?case by (simp add: validation_result_def)
next
  case (Cons kv kvs)
  show ?case
    using Cons.IH validation_result_Cons [of st "fst kv" "map fst kvs"]
    by (simp add: validateUpdateColumn_eq split: sum.splits)
qed

lemma validateUpdateColumns_eq:
  "validateUpdateColumns st cmds = validation_result st (update_targets cmds)"
proof (induction cmds)
  case Nil
  show ?case by (simp add: validation_result_def update_targets_def)
next
  case (Cons c cmds)
  show ?case
  proof (cases "type c = UPDATE")
    case True
    have "update_targets (c # cmds) = map fst (column_to_update_expression c) @ update_targets cmds"
      using True by (simp add: update_targets_def)
    then show ?thesis
      using True Cons.IH
      by (simp add: validation_result_append validateUpdateExpressions_eq split: sum.splits)
  next
    case False
    then show ?thesis using Cons.IH by (simp add: update_targets_def)
  qed
qed

lemma prepare_validation_error:
  "\<not> is_prepared mi \<Longrightarrow> commands mi \<noteq> [] \<Longrightarrow>
   validateUpdateColumns (storage mi) (commands mi) = Inl e \<Longrightarrow> prepare gcn dry_run mi = Inl e"
  by (simp add: prepare_def)

lemma validate_prepare_error: "prepare gcn True mi = Inl e \<Longrightarrow> validate gcn mi = Inl e"
  by (simp add: validate_def)

lemma execute_prepare_error: "prepare gcn False mi = Inl e \<Longrightarrow> execute gcn mi = Inl e"
  by (simp add: execute_def)

text \<open>
  C9. For every command list, the validation of \<^verbatim>\<open>prepare\<close> goes through the target
  columns of the Update commands in order: a target among the ordinary columns passes,
  the first one that is not makes the validation fail, with \<open>CANNOT_UPDATE_COLUMN\<close> if it
  is a materialized column and with \<open>NO_SUCH_COLUMN_IN_TABLE\<close> if it is in neither list.
  Commands that are no Update take no part: removing them does not change the result,
  and a list without Update passes. The check comes before staging and before anything
  is read: when it fails, \<^verbatim>\<open>prepare\<close>, \<^verbatim>\<open>validate\<close> and \<^verbatim>\<open>execute\<close> of an interpreter
  that is not prepared yet all fail with its error, whatever else the command list holds.
\<close>

theorem C9_update_columns_validated:
  "validateUpdateColumns st cmds = validation_result st (update_targets cmds)
   \<and> validateUpdateColumns st cmds
       = validateUpdateColumns st (filter (\<lambda>c. type c = UPDATE) cmds)
   \<and> validateUpdateColumns st (filter (\<lambda>c. type c \<noteq> UPDATE) cmds) = Inr ()
   \<and> (\<not> is_prepared mi \<and> commands mi \<noteq> []
        \<and> validateUpdateColumns (storage mi) (commands mi) = Inl e
      \<longrightarrow> prepare gcn dry_run mi = Inl e \<and> validate gcn mi = Inl e \<and> execute gcn mi = Inl e)"
proof -
  have "update_targets (filter (\<lambda>c. type c \<noteq> UPDATE) cmds) = []"
    by (induction cmds) (simp_all add: update_targets_def)
  then have a: "validateUpdateColumns st (filter (\<lambda>c. type c \<noteq> UPDATE) cmds) = Inr ()"
    by (simp add: validateUpdateColumns_eq validation_result_def)
  have "update_targets (filter (\<lambda>c. type c = UPDATE) cmds) = update_targets cmds"
    by (simp add: update_targets_def)
  then have b: "validateUpdateColumns st cmds
       = validateUpdateColumns st (filter (\<lambda>c. type c = UPDATE) cmds)"
    by (simp add: validateUpdateColumns_eq)
  show ?thesis
    using a b validateUpdateColumns_eq prepare_validation_error
      validate_prepare_error execute_prepare_error
    by blast
qed

theorem C9_update_columns_validated_witness:
  "validateUpdateColumns ex_storage [ex_delete, ex_update, ex_update_materialized, ex_other]
     = Inl CANNOT_UPDATE_COLUMN
   \<and> validateUpdateColumns ex_storage [ex_update_missing] = Inl NO_SUCH_COLUMN_IN_TABLE
   \<and> validateUpdateColumns ex_storage [ex_delete, ex_update] = Inr ()
   \<and> prepare expression_text False
       (new_MutationsInterpreter ex_storage
          [ex_delete, ex_update, ex_update_materialized, ex_other] ex_context)
     = Inl CANNOT_UPDATE_COLUMN
   \<and> validate expression_text
       (new_MutationsInterpreter ex_storage
          [ex_delete, ex_update, ex_update_materialized, ex_other] ex_context)
     = Inl CANNOT_UPDATE_COLUMN
   \<and> execute expression_text
       (new_MutationsInterpreter ex_storage
          [ex_delete, ex_update, ex_update_materialized, ex_other] ex_context)
     = Inl CANNOT_UPDATE_COLUMN"
proof -
  let ?cmds = "[ex_delete, ex_update, ex_update_materialized, ex_other]"
  let ?mi = "new_MutationsInterpreter ex_storage ?cmds ex_context"
  have t1: "update_targets ?cmds = [''a'', ''m'']"
    by (simp add: update_targets_def ex_delete_def ex_update_def
        ex_update_materialized_def ex_other_def)
  have t2: "update_targets [ex_update_missing] = [''z'']"
    by (simp add: update_targets_def ex_update_missing_def)
  have t3: "update_targets [ex_delete, ex_update] = [''a'']"
    by (simp add: update_targets_def ex_delete_def ex_update_def)
  have v1: "validateUpdateColumns ex_storage ?cmds = Inl CANNOT_UPDATE_COLUMN"
    using C9_update_columns_validated [of ex_storage ?cmds] t1
    by (simp add: validation_result_def ex_storage_def)
  have v2: "validateUpdateColumns ex_storage [ex_update_missing] = Inl NO_SUCH_COLUMN_IN_TABLE"
    using C9_update_columns_validated [of ex_storage "[ex_update_missing]"] t2
    by (simp add: validation_result_def ex_storage_def)
  have v3: "validateUpdateColumns ex_storage [ex_delete, ex_update] = Inr ()"
    using C9_update_columns_validated [of ex_storage "[ex_delete, ex_update]"] t3
    by (simp add: validation_result_def ex_storage_def)
  have h: "\<not> is_prepared ?mi \<and> commands ?mi \<noteq> []
       \<and> validateUpdateColumns (storage ?mi) (commands ?mi) = Inl CANNOT_UPDATE_COLUMN"
    using v1 by (simp add: new_MutationsInterpreter_def)
  show ?thesis
    using v1 v2 v3 h
      C9_update_columns_validated [of ex_storage ?cmds ?mi CANNOT_UPDATE_COLUMN
        expression_text False]
      C9_update_columns_validated [of ex_storage ?cmds ?mi CANNOT_UPDATE_COLUMN
        expression_text True]
    by blast
qed

section \<open>Staging\<close>

lemma map_last_snoc [simp]: "map_last f (xs @ [x]) = xs @ [f x]"
  by (simp add: map_last_def)

lemma map_last_Nil [simp]: "map_last f [] = []"
  by (simp add: map_last_def)

lemma length_map_last [simp]: "length (map_last f xs) = length xs"
  by (simp add: map_last_def)

lemma map_last_nonempty: "xs \<noteq> [] \<Longrightarrow> map_last f xs = butlast xs @ [f (last xs)]"
  by (simp add: map_last_def)

lemma map_last_snoc2 [simp]: "map_last f (xs @ [x, y]) = xs @ [x, f y]"
  using map_last_snoc [of f "xs @ [x]" y] by simp

lemma map_last_two [simp]: "map_last f [x, y] = [x, f y]"
  using map_last_snoc [of f "[x]" y] by simp

lemma stage_command_snoc_delete:
  "type c = DELETE \<Longrightarrow>
   stage_command (sts @ [s]) c =
     Inr (if update s \<noteq> None then sts @ [s, new_Stage\<lparr>deletes := [c]\<rparr>]
          else sts @ [s\<lparr>deletes := deletes s @ [c]\<rparr>])"
  by (simp add: stage_command_def emplace_back_def new_Stage_def)

lemma stage_command_snoc_update:
  "type c = UPDATE \<Longrightarrow>
   stage_command (sts @ [s]) c =
     Inr (if update s \<noteq> None \<or> sts = [] then sts @ [s, new_Stage\<lparr>update := Some c\<rparr>]
          else sts @ [s\<lparr>update := Some c\<rparr>])"
  by (auto simp add: stage_command_def emplace_back_def new_Stage_def Let_def)

lemma stage_command_other:
  "type c \<noteq> DELETE \<Longrightarrow> type c \<noteq> UPDATE \<Longrightarrow> stage_command sts c = Inl UNKNOWN_MUTATION_COMMAND"
  by (simp add: stage_command_def Let_def)

lemma stage_commands_of_new [simp]: "stage_commands_of new_Stage = []"
  by (simp add: stage_commands_of_def new_Stage_def)

lemma unprepared_new [simp]: "unprepared new_Stage"
  by (simp add: unprepared_def new_Stage_def)

lemma staged_initial: "staged [new_Stage]"
  by (simp add: staged_def new_Stage_def unprepared_def)

lemma stage_command_flatten:
  assumes "sts \<noteq> []" and "stage_command sts c = Inr sts'"
  shows "concat (map stage_commands_of sts') = concat (map stage_commands_of sts) @ [c]"
proof -
  obtain init s where sts: "sts = init @ [s]"
    using assms(1) by (metis append_butlast_last_id)
  consider (d) "type c = DELETE" | (u) "type c = UPDATE" | (o) "type c \<noteq> DELETE" "type c \<noteq> UPDATE"
    by blast
  then show ?thesis
  proof cases
    case d
    then show ?thesis
      using assms(2) unfolding sts
      by (auto simp add: stage_command_snoc_delete stage_commands_of_def new_Stage_def split: if_splits)
  next
    case u
    then show ?thesis
      using assms(2) unfolding sts
      by (auto simp add: stage_command_snoc_update stage_commands_of_def new_Stage_def split: if_splits)
  next
    case o
    then show ?thesis using assms(2) by (simp add: stage_command_other)
  qed
qed

lemma stage_command_staged:
  assumes "staged sts" and "stage_command sts c = Inr sts'"
  shows "staged sts'"
proof -
  have ne: "sts \<noteq> []" using assms(1) by (simp add: staged_def)
  obtain init s where sts: "sts = init @ [s]"
    using ne by (metis append_butlast_last_id)
  consider (d) "type c = DELETE" | (u) "type c = UPDATE" | (o) "type c \<noteq> DELETE" "type c \<noteq> UPDATE"
    by blast
  then show ?thesis
  proof cases
    case d
    have eq: "sts' = (if update s \<noteq> None then init @ [s, new_Stage\<lparr>deletes := [c]\<rparr>] else init @ [s\<lparr>deletes := deletes s @ [c]\<rparr>])"
      using assms(2) d unfolding sts by (simp add: stage_command_snoc_delete)
    show ?thesis
    proof (cases init)
      case Nil
      then show ?thesis
        using assms(1) d unfolding sts eq
        by (auto simp add: staged_def unprepared_def
            stage_commands_of_def new_Stage_def split: if_splits)
    next
      case (Cons a init')
      then show ?thesis
        using assms(1) d unfolding sts eq
        by (auto simp add: staged_def unprepared_def
            stage_commands_of_def new_Stage_def butlast_append split: if_splits)
    qed
  next
    case u
    have eq: "sts' = (if update s \<noteq> None \<or> init = [] then init @ [s, new_Stage\<lparr>update := Some c\<rparr>] else init @ [s\<lparr>update := Some c\<rparr>])"
      using assms(2) u unfolding sts by (simp add: stage_command_snoc_update)
    show ?thesis
    proof (cases init)
      case Nil
      then show ?thesis
        using assms(1) u unfolding sts eq
        by (auto simp add: staged_def unprepared_def
            stage_commands_of_def new_Stage_def split: if_splits)
    next
      case (Cons a init')
      then show ?thesis
        using assms(1) u unfolding sts eq
        by (auto simp add: staged_def unprepared_def
            stage_commands_of_def new_Stage_def butlast_append split: if_splits)
    qed
  next
    case o
    then show ?thesis using assms(2) by (simp add: stage_command_other)
  qed
qed

lemma stage_commands_staged:
  "staged sts \<Longrightarrow> stage_commands sts cmds = Inr sts' \<Longrightarrow>
   staged sts' \<and> concat (map stage_commands_of sts') = concat (map stage_commands_of sts) @ cmds"
proof (induction cmds arbitrary: sts)
  case Nil
  then show ?case by simp
next
  case (Cons c cmds)
  from Cons.prems(2) obtain sts1 where
    s1: "stage_command sts c = Inr sts1" and s2: "stage_commands sts1 cmds = Inr sts'"
    by (auto split: sum.splits)
  have "sts \<noteq> []" using Cons.prems(1) by (simp add: staged_def)
  then have f: "concat (map stage_commands_of sts1) = concat (map stage_commands_of sts) @ [c]"
    using s1 by (rule stage_command_flatten)
  have "staged sts1" using Cons.prems(1) s1 by (rule stage_command_staged)
  from Cons.IH [OF this s2] f show ?case by simp
qed

lemma stage_commands_fails_iff:
  "stage_commands sts cmds = Inl e \<longleftrightarrow>
     e = UNKNOWN_MUTATION_COMMAND \<and> (\<exists>c \<in> set cmds. type c \<noteq> DELETE \<and> type c \<noteq> UPDATE)"
proof (induction cmds arbitrary: sts)
  case Nil
  show ?case by simp
next
  case (Cons c cmds)
  show ?case
  proof (cases "type c = DELETE \<or> type c = UPDATE")
    case True
    then obtain sts1 where "stage_command sts c = Inr sts1"
      by (auto simp add: stage_command_def Let_def)
    then show ?thesis using True Cons.IH [of sts1] by auto
  next
    case False
    then show ?thesis by (auto simp add: stage_command_other)
  qed
qed

lemma stage_commands_all_deletes:
  "\<forall>c \<in> set cmds. type c = DELETE \<Longrightarrow> update s = None \<Longrightarrow>
   stage_commands (sts @ [s]) cmds = Inr (sts @ [s\<lparr>deletes := deletes s @ cmds\<rparr>])"
proof (induction cmds arbitrary: s)
  case Nil
  show ?case by simp
next
  case (Cons c cmds)
  have "stage_command (sts @ [s]) c = Inr (sts @ [s\<lparr>deletes := deletes s @ [c]\<rparr>])"
    using Cons.prems by (simp add: stage_command_snoc_delete)
  then show ?case
    using Cons.IH [of "s\<lparr>deletes := deletes s @ [c]\<rparr>"] Cons.prems by simp
qed

lemma staged_nth_update:
  assumes "staged sts" and "0 < i" and "Suc i < length sts"
  shows "update (sts ! i) \<noteq> None"
proof -
  obtain j where j: "i = Suc j" using assms(2) by (cases i) auto
  have "sts ! i = tl sts ! j" using j assms(3) by (simp add: nth_tl)
  also have "\<dots> = butlast (tl sts) ! j" using j assms(3) by (simp add: nth_butlast)
  finally have "sts ! i \<in> set (butlast (tl sts))"
    using j assms(3) by (simp add: nth_mem)
  then show ?thesis using assms(1) by (simp add: staged_def)
qed

text \<open>
  C2. Staging takes the commands in their order. One step of it, on a list with a current
  (last) stage: if the current stage holds an Update, a new stage is opened before the
  command is looked at; a Delete is appended to the deletes of the (possibly new) current
  stage; an Update met while there is only stage 0 opens a new stage first, and becomes
  the update of the current stage; any other tag fails with \<open>UNKNOWN_MUTATION_COMMAND\<close>.
  For the whole list, started on one empty stage: the stages, read in order (the deletes
  of a stage, then its update), give back the command list, so no command is lost or
  moved and every Update has a stage of its own; stage 0 holds no Update; every stage
  between stage 0 and the last one holds an Update; staging fails exactly when some
  command is neither Delete nor Update, and then with \<open>UNKNOWN_MUTATION_COMMAND\<close>, which
  is then the error of \<^verbatim>\<open>prepare\<close> once the checks before staging have passed; and a list
  of Deletes only gives the single stage that holds them all.
\<close>

theorem C2_staging:
  "(stage_commands [new_Stage] cmds = Inr sts \<longrightarrow>
      concat (map stage_commands_of sts) = cmds
      \<and> sts \<noteq> [] \<and> update (sts ! 0) = None
      \<and> (\<forall>i. 0 < i \<and> Suc i < length sts \<longrightarrow> update (sts ! i) \<noteq> None)
      \<and> (\<forall>s \<in> set sts. (\<forall>d \<in> set (deletes s). type d = DELETE)
            \<and> (\<forall>u. update s = Some u \<longrightarrow> type u = UPDATE)))
   \<and> (stage_commands [new_Stage] cmds = Inl e \<longleftrightarrow>
        e = UNKNOWN_MUTATION_COMMAND
        \<and> (\<exists>c \<in> set cmds. type c \<noteq> DELETE \<and> type c \<noteq> UPDATE))
   \<and> ((\<forall>c \<in> set cmds. type c = DELETE) \<longrightarrow>
        stage_commands [new_Stage] cmds = Inr [new_Stage\<lparr>deletes := cmds\<rparr>])
   \<and> (type c = DELETE \<longrightarrow>
        stage_command (before @ [s]) c =
          Inr (if update s \<noteq> None then before @ [s, new_Stage\<lparr>deletes := [c]\<rparr>]
               else before @ [s\<lparr>deletes := deletes s @ [c]\<rparr>]))
   \<and> (type c = UPDATE \<longrightarrow>
        stage_command (before @ [s]) c =
          Inr (if update s \<noteq> None \<or> before = []
               then before @ [s, new_Stage\<lparr>update := Some c\<rparr>]
               else before @ [s\<lparr>update := Some c\<rparr>]))
   \<and> (type c \<noteq> DELETE \<and> type c \<noteq> UPDATE \<longrightarrow>
        stage_command (before @ [s]) c = Inl UNKNOWN_MUTATION_COMMAND)
   \<and> (\<not> is_prepared mi \<and> validateUpdateColumns (storage mi) (commands mi) = Inr ()
        \<and> (\<exists>c \<in> set (commands mi). type c \<noteq> DELETE \<and> type c \<noteq> UPDATE)
      \<longrightarrow> prepare gcn dry_run mi = Inl UNKNOWN_MUTATION_COMMAND)"
proof -
  have 1: "stage_commands [new_Stage] cmds = Inr sts \<longrightarrow>
      concat (map stage_commands_of sts) = cmds
      \<and> sts \<noteq> [] \<and> update (sts ! 0) = None
      \<and> (\<forall>i. 0 < i \<and> Suc i < length sts \<longrightarrow> update (sts ! i) \<noteq> None)
      \<and> (\<forall>s \<in> set sts. (\<forall>d \<in> set (deletes s). type d = DELETE)
            \<and> (\<forall>u. update s = Some u \<longrightarrow> type u = UPDATE))"
  proof
    assume a: "stage_commands [new_Stage] cmds = Inr sts"
    from stage_commands_staged [OF staged_initial a]
    have st: "staged sts" and fl: "concat (map stage_commands_of sts) = cmds" by simp_all
    have ne: "sts \<noteq> []" using st by (simp add: staged_def)
    have "update (hd sts) = None" using st by (simp add: staged_def)
    then have u0: "update (sts ! 0) = None" using ne by (simp add: hd_conv_nth)
    have mid: "\<forall>i. 0 < i \<and> Suc i < length sts \<longrightarrow> update (sts ! i) \<noteq> None"
      using staged_nth_update [OF st] by blast
    have tags: "\<forall>s \<in> set sts. (\<forall>d \<in> set (deletes s). type d = DELETE)
            \<and> (\<forall>u. update s = Some u \<longrightarrow> type u = UPDATE)"
      using st by (simp add: staged_def)
    show "concat (map stage_commands_of sts) = cmds
      \<and> sts \<noteq> [] \<and> update (sts ! 0) = None
      \<and> (\<forall>i. 0 < i \<and> Suc i < length sts \<longrightarrow> update (sts ! i) \<noteq> None)
      \<and> (\<forall>s \<in> set sts. (\<forall>d \<in> set (deletes s). type d = DELETE)
            \<and> (\<forall>u. update s = Some u \<longrightarrow> type u = UPDATE))"
      using fl ne u0 mid tags by blast
  qed
  have 2: "stage_commands [new_Stage] cmds = Inl e \<longleftrightarrow>
        e = UNKNOWN_MUTATION_COMMAND
        \<and> (\<exists>c \<in> set cmds. type c \<noteq> DELETE \<and> type c \<noteq> UPDATE)"
    by (rule stage_commands_fails_iff)
  have 3: "(\<forall>c \<in> set cmds. type c = DELETE) \<longrightarrow>
        stage_commands [new_Stage] cmds = Inr [new_Stage\<lparr>deletes := cmds\<rparr>]"
    using stage_commands_all_deletes [of cmds new_Stage "[]"]
    by (simp add: new_Stage_def)
  have 4: "type c = DELETE \<longrightarrow>
        stage_command (before @ [s]) c =
          Inr (if update s \<noteq> None then before @ [s, new_Stage\<lparr>deletes := [c]\<rparr>]
               else before @ [s\<lparr>deletes := deletes s @ [c]\<rparr>])"
    using stage_command_snoc_delete by blast
  have 5: "type c = UPDATE \<longrightarrow>
        stage_command (before @ [s]) c =
          Inr (if update s \<noteq> None \<or> before = []
               then before @ [s, new_Stage\<lparr>update := Some c\<rparr>]
               else before @ [s\<lparr>update := Some c\<rparr>])"
    using stage_command_snoc_update by blast
  have 6: "type c \<noteq> DELETE \<and> type c \<noteq> UPDATE \<longrightarrow>
        stage_command (before @ [s]) c = Inl UNKNOWN_MUTATION_COMMAND"
    using stage_command_other by blast
  have 7: "\<not> is_prepared mi \<and> validateUpdateColumns (storage mi) (commands mi) = Inr ()
        \<and> (\<exists>c \<in> set (commands mi). type c \<noteq> DELETE \<and> type c \<noteq> UPDATE)
      \<longrightarrow> prepare gcn dry_run mi = Inl UNKNOWN_MUTATION_COMMAND"
  proof
    assume a: "\<not> is_prepared mi \<and> validateUpdateColumns (storage mi) (commands mi) = Inr ()
        \<and> (\<exists>c \<in> set (commands mi). type c \<noteq> DELETE \<and> type c \<noteq> UPDATE)"
    then have ne: "commands mi \<noteq> []" by auto
    have "stage_commands (emplace_back (stages mi)) (commands mi) = Inl UNKNOWN_MUTATION_COMMAND"
      using a stage_commands_fails_iff by blast
    then show "prepare gcn dry_run mi = Inl UNKNOWN_MUTATION_COMMAND"
      using a ne by (simp add: prepare_def)
  qed
  show ?thesis using 1 2 3 4 5 6 7 by blast
qed

theorem C2_staging_witness:
  "stage_commands [new_Stage] [ex_delete, ex_update, ex_delete] =
     Inr [new_Stage\<lparr>deletes := [ex_delete]\<rparr>, new_Stage\<lparr>update := Some ex_update\<rparr>,
          new_Stage\<lparr>deletes := [ex_delete]\<rparr>]
   \<and> concat (map stage_commands_of
        [new_Stage\<lparr>deletes := [ex_delete]\<rparr>, new_Stage\<lparr>update := Some ex_update\<rparr>,
         new_Stage\<lparr>deletes := [ex_delete]\<rparr>]) = [ex_delete, ex_update, ex_delete]
   \<and> stage_commands [new_Stage] [ex_delete, ex_delete]
       = Inr [new_Stage\<lparr>deletes := [ex_delete, ex_delete]\<rparr>]
   \<and> stage_commands [new_Stage] [ex_delete, ex_other] = Inl UNKNOWN_MUTATION_COMMAND
   \<and> stage_command ([] @ [new_Stage]) ex_update
       = Inr ([] @ [new_Stage, new_Stage\<lparr>update := Some ex_update\<rparr>])
   \<and> stage_command ([new_Stage] @ [new_Stage\<lparr>update := Some ex_update\<rparr>]) ex_delete
       = Inr ([new_Stage] @ [new_Stage\<lparr>update := Some ex_update\<rparr>,
              new_Stage\<lparr>deletes := [ex_delete]\<rparr>])
   \<and> stage_command ([] @ [new_Stage]) ex_other = Inl UNKNOWN_MUTATION_COMMAND
   \<and> prepare expression_text False
        (new_MutationsInterpreter ex_storage [ex_delete, ex_other] ex_context)
       = Inl UNKNOWN_MUTATION_COMMAND"
proof -
  let ?sts = "[new_Stage\<lparr>deletes := [ex_delete]\<rparr>, new_Stage\<lparr>update := Some ex_update\<rparr>,
          new_Stage\<lparr>deletes := [ex_delete]\<rparr>]"
  let ?mi = "new_MutationsInterpreter ex_storage [ex_delete, ex_other] ex_context"
  note T = C2_staging [of "[ex_delete, ex_update, ex_delete]" ?sts UNKNOWN_MUTATION_COMMAND
      ex_update "[]" new_Stage ?mi expression_text False]
  note U = C2_staging [of "[ex_delete, ex_delete]" ?sts UNKNOWN_MUTATION_COMMAND
      ex_delete "[new_Stage]" "new_Stage\<lparr>update := Some ex_update\<rparr>" ?mi expression_text False]
  note V = C2_staging [of "[ex_delete, ex_other]" ?sts UNKNOWN_MUTATION_COMMAND
      ex_other "[]" new_Stage ?mi expression_text False]
  have a: "stage_commands [new_Stage] [ex_delete, ex_update, ex_delete] = Inr ?sts"
    by (simp add: stage_command_def emplace_back_def map_last_def Let_def new_Stage_def)
  have a2: "concat (map stage_commands_of ?sts) = [ex_delete, ex_update, ex_delete]"
    using T [THEN conjunct1, rule_format, OF a] by (rule conjunct1)
  have "\<forall>c \<in> set [ex_delete, ex_delete]. type c = DELETE" by simp
  then have b: "stage_commands [new_Stage] [ex_delete, ex_delete]
       = Inr [new_Stage\<lparr>deletes := [ex_delete, ex_delete]\<rparr>]"
    by (rule U [THEN conjunct2, THEN conjunct2, THEN conjunct1, THEN mp])
  have "UNKNOWN_MUTATION_COMMAND = UNKNOWN_MUTATION_COMMAND
      \<and> (\<exists>c \<in> set [ex_delete, ex_other]. type c \<noteq> DELETE \<and> type c \<noteq> UPDATE)" by simp
  then have c: "stage_commands [new_Stage] [ex_delete, ex_other] = Inl UNKNOWN_MUTATION_COMMAND"
    by (rule V [THEN conjunct2, THEN conjunct1, THEN iffD2])
  have d: "stage_command ([] @ [new_Stage]) ex_update
       = Inr ([] @ [new_Stage, new_Stage\<lparr>update := Some ex_update\<rparr>])"
    using T [THEN conjunct2, THEN conjunct2, THEN conjunct2, THEN conjunct2, THEN conjunct1]
    by simp
  have e: "stage_command ([new_Stage] @ [new_Stage\<lparr>update := Some ex_update\<rparr>]) ex_delete
       = Inr ([new_Stage] @ [new_Stage\<lparr>update := Some ex_update\<rparr>,
              new_Stage\<lparr>deletes := [ex_delete]\<rparr>])"
    using U [THEN conjunct2, THEN conjunct2, THEN conjunct2, THEN conjunct1]
    by simp
  have f: "stage_command ([] @ [new_Stage]) ex_other = Inl UNKNOWN_MUTATION_COMMAND"
    using V [THEN conjunct2, THEN conjunct2, THEN conjunct2, THEN conjunct2,
          THEN conjunct2, THEN conjunct1]
    by simp
  have "\<not> is_prepared ?mi \<and> validateUpdateColumns (storage ?mi) (commands ?mi) = Inr ()
        \<and> (\<exists>c \<in> set (commands ?mi). type c \<noteq> DELETE \<and> type c \<noteq> UPDATE)"
    by (simp add: new_MutationsInterpreter_def)
  then have g: "prepare expression_text False ?mi = Inl UNKNOWN_MUTATION_COMMAND"
    by (rule V [THEN conjunct2, THEN conjunct2, THEN conjunct2, THEN conjunct2,
          THEN conjunct2, THEN conjunct2, THEN mp])
  show ?thesis using a a2 b c d e f g by (intro conjI)
qed

section \<open>The forward pass\<close>

lemma set_NameSet_insert [simp]: "set (NameSet_insert x s) = insert x (set s)"
  by (auto simp add: NameSet_insert_def)

lemma distinct_NameSet_insert [simp]: "distinct (NameSet_insert x s) = distinct s"
  by (auto simp add: NameSet_insert_def)

lemma set_NameSet_insert_all [simp]: "set (NameSet_insert_all xs s) = set xs \<union> set s"
  unfolding NameSet_insert_all_def by (induction xs arbitrary: s) auto

lemma distinct_NameSet_insert_all [simp]: "distinct (NameSet_insert_all xs s) = distinct s"
  unfolding NameSet_insert_all_def by (induction xs arbitrary: s) auto

lemma calculate_output_columns_eq:
  "i < length sts \<Longrightarrow>
   calculate_output_columns all_columns sts i =
     sts[i := (sts ! i)\<lparr>output_columns :=
       code_output_columns all_columns i (output_columns (sts ! (i - 1))) (sts ! i)\<rparr>]"
  by (cases "update (sts ! i)")
     (auto simp add: calculate_output_columns_def code_output_columns_def Let_def)

lemma code_output_columns_first:
  "code_output_columns all_columns 0 prev s = code_output_columns all_columns 0 [] s"
  by (simp add: code_output_columns_def)

lemma forward_prefix:
  "k \<le> length sts \<Longrightarrow>
   length (foldl (calculate_output_columns all_columns) sts [0..<k]) = length sts
   \<and> (\<forall>j. k \<le> j \<and> j < length sts \<longrightarrow>
         foldl (calculate_output_columns all_columns) sts [0..<k] ! j = sts ! j)
   \<and> (\<forall>j < k. foldl (calculate_output_columns all_columns) sts [0..<k] ! j =
         (sts ! j)\<lparr>output_columns := forward_output all_columns sts j\<rparr>)"
proof (induction k)
  case 0
  show ?case by simp
next
  case (Suc k)
  let ?F = "foldl (calculate_output_columns all_columns) sts [0..<k]"
  have k: "k < length sts" using Suc.prems by simp
  have IH1: "length ?F = length sts" using Suc.IH k by simp
  have IH2: "\<And>j. k \<le> j \<Longrightarrow> j < length sts \<Longrightarrow> ?F ! j = sts ! j"
    using Suc.IH k by simp
  have IH3: "\<And>j. j < k \<Longrightarrow> ?F ! j = (sts ! j)\<lparr>output_columns := forward_output all_columns sts j\<rparr>"
    using Suc.IH k by simp
  have Fk: "?F ! k = sts ! k" using IH2 k by simp
  have new: "code_output_columns all_columns k (output_columns (?F ! (k - 1))) (sts ! k)
      = forward_output all_columns sts k"
  proof (cases k)
    case 0
    then show ?thesis using code_output_columns_first by simp
  next
    case (Suc k')
    then show ?thesis using IH3 [of k'] by simp
  qed
  have step: "foldl (calculate_output_columns all_columns) sts [0..<Suc k] =
      ?F[k := (sts ! k)\<lparr>output_columns := forward_output all_columns sts k\<rparr>]"
    using k IH1 Fk new by (simp add: calculate_output_columns_eq)
  show ?case
    unfolding step using IH1 IH2 IH3 k
    by (auto simp add: nth_list_update less_Suc_eq)
qed

lemma forward_pass_length [simp]: "length (forward_pass all_columns sts) = length sts"
  using forward_prefix [of "length sts" sts all_columns] by (simp add: forward_pass_def)

lemma forward_pass_nth:
  "i < length sts \<Longrightarrow>
   forward_pass all_columns sts ! i =
     (sts ! i)\<lparr>output_columns := forward_output all_columns sts i\<rparr>"
  using forward_prefix [of "length sts" sts all_columns] by (simp add: forward_pass_def)

lemma forward_output_invariant:
  assumes "\<forall>s \<in> set sts. output_columns s = []" and "targets_known all_columns sts"
    and "i < length sts"
  shows "distinct (forward_output all_columns sts i)
     \<and> set (forward_output all_columns sts i) \<subseteq> set (map name all_columns)"
  using assms(3)
proof (induction i)
  case 0
  then have "sts ! 0 \<in> set sts" by simp
  then show ?case
    using assms(1,2)
    by (auto simp add: code_output_columns_def targets_known_def split: option.splits)
next
  case (Suc i)
  then have m: "sts ! Suc i \<in> set sts" by simp
  have IH: "distinct (forward_output all_columns sts i)"
    "set (forward_output all_columns sts i) \<subseteq> set (map name all_columns)"
    using Suc by simp_all
  show ?case
    using assms(1,2) m IH
    by (auto simp add: code_output_columns_def targets_known_def Let_def split: option.splits)
qed

lemma full_by_size:
  assumes "distinct xs" and "distinct ys" and "set xs \<subseteq> set ys"
  shows "length xs < length ys \<longleftrightarrow> set xs \<noteq> set ys"
proof -
  have "card (set xs) = length xs" "card (set ys) = length ys"
    using assms by (simp_all add: distinct_card)
  moreover have "card (set xs) < card (set ys) \<longleftrightarrow> set xs \<noteq> set ys"
    using assms(3) by (metis List.finite_set card_seteq leI less_irrefl psubsetI psubset_card_mono)
  ultimately show ?thesis by simp
qed


text \<open>
  C3. The forward pass keeps the stages and their commands and sets the output columns
  stage by stage, in increasing order: what it leaves at stage \<open>i\<close> is the rule of one
  iteration applied to what it left at stage \<open>i - 1\<close>. For stages that come from staging
  (no output columns yet), a table whose columns have distinct names and updates that
  target columns of the table, this is the rule of the spec: with a Delete the set is
  the full physical column set, whatever stage \<open>i - 1\<close> has; without, it is the set of
  stage \<open>i - 1\<close> (empty for stage 0), with the target columns of the Update of the stage
  added if the set is not the full one already.
\<close>

theorem C3_forward_pass:
  "length (forward_pass all_columns sts) = length sts
   \<and> (i < length sts \<longrightarrow>
        deletes (forward_pass all_columns sts ! i) = deletes (sts ! i)
        \<and> update (forward_pass all_columns sts ! i) = update (sts ! i)
        \<and> output_columns (forward_pass all_columns sts ! i) =
            code_output_columns all_columns i
              (output_columns (forward_pass all_columns sts ! (i - 1))) (sts ! i))
   \<and> (i < length sts \<and> (\<forall>s \<in> set sts. output_columns s = [])
        \<and> distinct (map name all_columns) \<and> targets_known all_columns sts \<longrightarrow>
        set (output_columns (forward_pass all_columns sts ! i)) =
          spec_output_columns all_columns
            (if i = 0 then {} else set (output_columns (forward_pass all_columns sts ! (i - 1))))
            (sts ! i))"
proof -
  let ?F = "forward_pass all_columns sts"
  have rec: "output_columns (?F ! i) =
      code_output_columns all_columns i (output_columns (?F ! (i - 1))) (sts ! i)"
    if i: "i < length sts"
  proof (cases i)
    case 0
    then show ?thesis
      using i by (simp add: forward_pass_nth code_output_columns_def)
  next
    case (Suc k)
    then show ?thesis using i by (simp add: forward_pass_nth)
  qed
  have 2: "i < length sts \<longrightarrow>
        deletes (?F ! i) = deletes (sts ! i) \<and> update (?F ! i) = update (sts ! i)
        \<and> output_columns (?F ! i) =
            code_output_columns all_columns i (output_columns (?F ! (i - 1))) (sts ! i)"
    using rec by (simp add: forward_pass_nth)
  have 3: "set (output_columns (?F ! i)) =
          spec_output_columns all_columns
            (if i = 0 then {} else set (output_columns (?F ! (i - 1)))) (sts ! i)"
    if i: "i < length sts" and fresh: "\<forall>s \<in> set sts. output_columns s = []"
      and d: "distinct (map name all_columns)" and t: "targets_known all_columns sts"
  proof -
    have m: "sts ! i \<in> set sts" using i by simp
    then have own: "output_columns (sts ! i) = []" using fresh by blast
    show ?thesis
    proof (cases i)
      case 0
      have "([]::string list) = [] \<longrightarrow> length ([]::string list) < length all_columns
          \<longleftrightarrow> {} \<noteq> set (map name all_columns)"
        by auto
      then show ?thesis
        using 0 i own
        by (auto simp add: forward_pass_nth code_output_columns_def spec_output_columns_def
            split: option.splits)
    next
      case (Suc k)
      have k: "k < length sts" using Suc i by simp
      have inv: "distinct (forward_output all_columns sts k)"
        "set (forward_output all_columns sts k) \<subseteq> set (map name all_columns)"
        using forward_output_invariant [OF fresh t k] by simp_all
      have "length (forward_output all_columns sts k) < length (map name all_columns)
          \<longleftrightarrow> set (forward_output all_columns sts k) \<noteq> set (map name all_columns)"
        using inv(1) d inv(2) by (rule full_by_size)
      then show ?thesis
        using Suc i k own
        by (auto simp add: forward_pass_nth code_output_columns_def spec_output_columns_def
            split: option.splits)
    qed
  qed
  show ?thesis using 2 3 by simp
qed

theorem C3_forward_pass_witness:
  "set (output_columns (forward_pass ex_columns ex_stages ! 1)) =
     spec_output_columns ex_columns
       (set (output_columns (forward_pass ex_columns ex_stages ! 0))) (ex_stages ! 1)
   \<and> output_columns (forward_pass ex_columns ex_stages ! 1) = [''a'']
   \<and> output_columns (forward_pass ex_columns ex_stages ! 0) = []
   \<and> output_columns (forward_pass ex_columns [new_Stage\<lparr>deletes := [ex_delete]\<rparr>] ! 0)
       = [''a'', ''b'', ''c'', ''m'']"
proof -
  have h: "1 < length ex_stages \<and> (\<forall>s \<in> set ex_stages. output_columns s = [])
      \<and> distinct (map name ex_columns) \<and> targets_known ex_columns ex_stages"
    by (simp add: ex_stages_def new_Stage_def ex_columns_def ex_storage_def getAllPhysical_def
        targets_known_def ex_update_def)
  have a: "set (output_columns (forward_pass ex_columns ex_stages ! 1)) =
     spec_output_columns ex_columns
       (set (output_columns (forward_pass ex_columns ex_stages ! 0))) (ex_stages ! 1)"
    using C3_forward_pass [of ex_columns ex_stages 1, THEN conjunct2, THEN conjunct2] h
    by simp
  have b: "output_columns (forward_pass ex_columns ex_stages ! 1) = [''a'']"
    by code_simp
  have c: "output_columns (forward_pass ex_columns ex_stages ! 0) = []"
    by code_simp
  have d: "output_columns (forward_pass ex_columns [new_Stage\<lparr>deletes := [ex_delete]\<rparr>] ! 0)
       = [''a'', ''b'', ''c'', ''m'']"
    by code_simp
  show ?thesis using a b c d by (intro conjI)
qed


section \<open>The backward pass\<close>

lemma prepare_stage_fields:
  "prepare_stage gcn st all_columns dry_run s = Inr s' \<Longrightarrow>
   deletes s' = deletes s \<and> update s' = update s \<and> output_columns s' = output_columns s"
  by (auto simp add: prepare_stage_def Let_def split: sum.splits prod.splits if_splits)

lemma backward_step_result:
  assumes "backward_step gcn st all_columns dry_run sts i = Inr sts'"
    and "0 < i" and "i < length sts"
  shows "length sts' = length sts"
    and "\<And>j. j \<noteq> i \<Longrightarrow> j \<noteq> i - 1 \<Longrightarrow> sts' ! j = sts ! j"
    and "prepare_stage gcn st all_columns dry_run (sts ! i) = Inr (sts' ! i)"
    and "sts' ! (i - 1) = (sts ! (i - 1))\<lparr>output_columns :=
           NameSet_insert_all (required_input (sts' ! i)) (output_columns (sts ! (i - 1)))\<rparr>"
proof -
  from assms(1) obtain stage where
    p: "prepare_stage gcn st all_columns dry_run (sts ! i) = Inr stage"
    and r: "sts' = propagate_required (sts[i := stage]) i"
    by (auto simp add: backward_step_def split: sum.splits)
  show "length sts' = length sts" using r by (simp add: propagate_required_def)
  show "\<And>j. j \<noteq> i \<Longrightarrow> j \<noteq> i - 1 \<Longrightarrow> sts' ! j = sts ! j"
    using r by (simp add: propagate_required_def)
  have i: "sts' ! i = stage"
    using r assms(2,3) by (simp add: propagate_required_def)
  show "prepare_stage gcn st all_columns dry_run (sts ! i) = Inr (sts' ! i)"
    using p i by simp
  show "sts' ! (i - 1) = (sts ! (i - 1))\<lparr>output_columns :=
           NameSet_insert_all (required_input (sts' ! i)) (output_columns (sts ! (i - 1)))\<rparr>"
    using r assms(2,3) i by (simp add: propagate_required_def required_input_def)
qed

lemma backward_pass_result:
  "k < length sts \<Longrightarrow> backward_pass gcn st all_columns dry_run k sts = Inr sts' \<Longrightarrow>
   length sts' = length sts
   \<and> (\<forall>j. k < j \<longrightarrow> sts' ! j = sts ! j)
   \<and> output_columns (sts' ! k) = output_columns (sts ! k)
   \<and> (\<forall>j. deletes (sts' ! j) = deletes (sts ! j) \<and> update (sts' ! j) = update (sts ! j))
   \<and> (\<forall>i. 0 < i \<and> i \<le> k \<longrightarrow>
         prepare_stage gcn st all_columns dry_run
           ((sts ! i)\<lparr>output_columns := output_columns (sts' ! i)\<rparr>) = Inr (sts' ! i)
         \<and> output_columns (sts' ! (i - 1)) =
             NameSet_insert_all (required_input (sts' ! i)) (output_columns (sts ! (i - 1))))
   \<and> (sts' ! 0 = (sts ! 0)\<lparr>output_columns := output_columns (sts' ! 0)\<rparr>)"
proof (induction k arbitrary: sts sts')
  case 0
  then show ?case by simp
next
  case (Suc k)
  from Suc.prems(2) obtain sts1 where
    s: "backward_step gcn st all_columns dry_run sts (Suc k) = Inr sts1"
    and b: "backward_pass gcn st all_columns dry_run k sts1 = Inr sts'"
    by (auto split: sum.splits)
  note S = backward_step_result [OF s _ Suc.prems(1), simplified]
  have k1: "k < length sts1" using S(1) Suc.prems(1) by simp
  note IH = Suc.IH [OF k1 b]
  have len: "length sts' = length sts" using IH S(1) by simp
  have top: "sts' ! Suc k = sts1 ! Suc k" using IH by simp
  have f1: "deletes (sts1 ! j) = deletes (sts ! j) \<and> update (sts1 ! j) = update (sts ! j)" for j
  proof (cases "j = Suc k")
    case True
    then show ?thesis using prepare_stage_fields [OF S(3)] by simp
  next
    case False
    show ?thesis
    proof (cases "j = k")
      case True
      then show ?thesis using S(4) by simp
    next
      case False
      then show ?thesis using S(2) [of j] \<open>j \<noteq> Suc k\<close> by simp
    qed
  qed
  have out_top: "output_columns (sts' ! Suc k) = output_columns (sts ! Suc k)"
    using top prepare_stage_fields [OF S(3)] by simp
  have rest: "prepare_stage gcn st all_columns dry_run
           ((sts ! i)\<lparr>output_columns := output_columns (sts' ! i)\<rparr>) = Inr (sts' ! i)
         \<and> output_columns (sts' ! (i - 1)) =
             NameSet_insert_all (required_input (sts' ! i)) (output_columns (sts ! (i - 1)))"
    if i: "0 < i" "i \<le> Suc k" for i
  proof (cases "i = Suc k")
    case True
    have "(sts ! Suc k)\<lparr>output_columns := output_columns (sts' ! Suc k)\<rparr> = sts ! Suc k"
      using out_top by simp
    moreover have "output_columns (sts' ! k) = output_columns (sts1 ! k)" using IH by simp
    ultimately show ?thesis using True S(3) S(4) top by simp
  next
    case False
    then have ik: "i \<le> k" using i by simp
    have a: "prepare_stage gcn st all_columns dry_run
           ((sts1 ! i)\<lparr>output_columns := output_columns (sts' ! i)\<rparr>) = Inr (sts' ! i)"
      and c: "output_columns (sts' ! (i - 1)) =
             NameSet_insert_all (required_input (sts' ! i)) (output_columns (sts1 ! (i - 1)))"
      using IH i(1) ik by simp_all
    have "(sts1 ! i)\<lparr>output_columns := output_columns (sts' ! i)\<rparr>
        = (sts ! i)\<lparr>output_columns := output_columns (sts' ! i)\<rparr>"
    proof (cases "i = k")
      case True
      then show ?thesis using S(4) by simp
    next
      case False
      then show ?thesis using S(2) [of i] \<open>i \<noteq> Suc k\<close> by simp
    qed
    moreover have "sts1 ! (i - 1) = sts ! (i - 1)"
      using S(2) [of "i - 1"] i(1) ik by simp
    ultimately show ?thesis using a c by simp
  qed
  have zero: "sts' ! 0 = (sts ! 0)\<lparr>output_columns := output_columns (sts' ! 0)\<rparr>"
  proof -
    have a: "sts' ! 0 = (sts1 ! 0)\<lparr>output_columns := output_columns (sts' ! 0)\<rparr>"
      using IH by simp
    have "(sts1 ! 0)\<lparr>output_columns := output_columns (sts' ! 0)\<rparr>
        = (sts ! 0)\<lparr>output_columns := output_columns (sts' ! 0)\<rparr>"
    proof (cases "k = 0")
      case True
      then show ?thesis using S(4) by simp
    next
      case False
      then show ?thesis using S(2) [of 0] by simp
    qed
    then show ?thesis using a by simp
  qed
  show ?case
    using len IH S(2) f1 out_top rest zero by auto
qed


lemma prepare_result:
  assumes "prepare gcn dry_run mi = Inr mi'"
  shows "\<exists>sts1 select.
     \<not> is_prepared mi \<and> commands mi \<noteq> []
     \<and> validateUpdateColumns (storage mi) (commands mi) = Inr ()
     \<and> stage_commands (emplace_back (stages mi)) (commands mi) = Inr sts1
     \<and> backward_pass gcn (storage mi) (getAllPhysical (getColumns (storage mi))) dry_run
          (length sts1 - 1) (forward_pass (getAllPhysical (getColumns (storage mi))) sts1)
         = Inr (stages mi')
     \<and> first_stage_select (stages mi' ! 0) = Inr select
     \<and> mi' = mi\<lparr>stages := stages mi',
                 interpreter_select := Some
                   \<lparr>query_ptr = select, select_context = current_context mi,
                    select_storage = storage mi, to_stage = Complete,
                    only_analyze = dry_run\<rparr>,
                 is_prepared := True\<rparr>"
  using assms
  by (auto simp add: prepare_def Let_def split: if_splits sum.splits)

lemma stage_commands_nonempty:
  "sts \<noteq> [] \<Longrightarrow> stage_commands sts cmds = Inr sts' \<Longrightarrow> sts' \<noteq> []"
proof (induction cmds arbitrary: sts)
  case Nil
  then show ?case by simp
next
  case (Cons c cmds)
  from Cons.prems(2) obtain sts1 where
    s1: "stage_command sts c = Inr sts1" and s2: "stage_commands sts1 cmds = Inr sts'"
    by (auto split: sum.splits)
  have "sts1 \<noteq> []"
    using s1 Cons.prems(1)
    by (auto simp add: stage_command_def Let_def emplace_back_def map_last_def split: if_splits)
  then show ?case using Cons.IH s2 by blast
qed

text \<open>What \<^verbatim>\<open>prepare\<close> leaves, in terms of the two passes.\<close>

lemma prepare_passes:
  assumes "prepare gcn dry_run mi = Inr mi'"
  obtains sts1 where
    "stage_commands (emplace_back (stages mi)) (commands mi) = Inr sts1"
    and "sts1 \<noteq> []"
    and "length (stages mi') = length sts1"
    and "\<And>j. deletes (stages mi' ! j) = deletes (forward_pass (getAllPhysical (getColumns (storage mi))) sts1 ! j)"
    and "\<And>j. update (stages mi' ! j) = update (forward_pass (getAllPhysical (getColumns (storage mi))) sts1 ! j)"
    and "output_columns (stages mi' ! (length sts1 - 1)) =
          output_columns (forward_pass (getAllPhysical (getColumns (storage mi))) sts1 ! (length sts1 - 1))"
    and "\<And>i. 0 < i \<Longrightarrow> i < length sts1 \<Longrightarrow>
          prepare_stage gcn (storage mi) (getAllPhysical (getColumns (storage mi))) dry_run
            ((forward_pass (getAllPhysical (getColumns (storage mi))) sts1 ! i)
               \<lparr>output_columns := output_columns (stages mi' ! i)\<rparr>) = Inr (stages mi' ! i)"
    and "\<And>i. 0 < i \<Longrightarrow> i < length sts1 \<Longrightarrow>
          output_columns (stages mi' ! (i - 1)) =
             NameSet_insert_all (required_input (stages mi' ! i))
               (output_columns (forward_pass (getAllPhysical (getColumns (storage mi))) sts1 ! (i - 1)))"
proof -
  let ?all = "getAllPhysical (getColumns (storage mi))"
  from prepare_result [OF assms] obtain sts1 where
    s: "stage_commands (emplace_back (stages mi)) (commands mi) = Inr sts1"
    and b: "backward_pass gcn (storage mi) ?all dry_run (length sts1 - 1) (forward_pass ?all sts1)
         = Inr (stages mi')"
    by blast
  have ne: "sts1 \<noteq> []"
    using stage_commands_nonempty [OF _ s] by (simp add: emplace_back_def)
  then have k: "length sts1 - 1 < length (forward_pass ?all sts1)" by simp
  note B = backward_pass_result [OF k b]
  show ?thesis
  proof (rule that [OF s ne])
    show "length (stages mi') = length sts1" using B by simp
    show "\<And>j. deletes (stages mi' ! j) = deletes (forward_pass ?all sts1 ! j)" using B by simp
    show "\<And>j. update (stages mi' ! j) = update (forward_pass ?all sts1 ! j)" using B by simp
    show "output_columns (stages mi' ! (length sts1 - 1)) =
          output_columns (forward_pass ?all sts1 ! (length sts1 - 1))" using B by simp
    show "\<And>i. 0 < i \<Longrightarrow> i < length sts1 \<Longrightarrow>
          prepare_stage gcn (storage mi) ?all dry_run
            ((forward_pass ?all sts1 ! i)\<lparr>output_columns := output_columns (stages mi' ! i)\<rparr>)
          = Inr (stages mi' ! i)"
      using B by simp
    show "\<And>i. 0 < i \<Longrightarrow> i < length sts1 \<Longrightarrow>
          output_columns (stages mi' ! (i - 1)) =
             NameSet_insert_all (required_input (stages mi' ! i))
               (output_columns (forward_pass ?all sts1 ! (i - 1)))"
      using B by simp
  qed
qed

lemma length_finalize_steps [simp]: "length (finalize_steps xs) = length xs"
  by (induction xs) (simp_all add: Let_def)

lemma finalize_steps_Nil_iff [simp]: "finalize_steps xs = [] \<longleftrightarrow> xs = []"
  by (cases xs) (simp_all add: Let_def)

lemma required_output_finalize_steps [simp]:
  "map required_output (finalize_steps xs) = map required_output xs"
  by (induction xs) (simp_all add: Let_def)

lemma action_list_finalize_steps [simp]:
  "map (\<lambda>s. action_list (actions s)) (finalize_steps xs) = map (\<lambda>s. action_list (actions s)) xs"
  by (induction xs) (simp_all add: Let_def finalize_actions_def)


lemma length_steps_appendExpression:
  "length (steps (appendExpression gcn an chain e dry_run)) = max 1 (length (steps chain))"
  by (cases "steps chain") (simp_all add: appendExpression_def initChain_def Let_def)

lemma addStep_unless_empty_length:
  "addStep_unless_empty chain = Inr chain1 \<Longrightarrow>
   length (steps chain1) = (if steps chain = [] then 0 else Suc (length (steps chain)))"
  by (auto simp add: addStep_unless_empty_def addStep_def split: if_splits)

lemma append_delete_filters_result:
  "append_delete_filters gcn an dry_run es (chain, names) = Inr (chain', names') \<Longrightarrow>
   names' = names @ map gcn es \<and> length (steps chain') = length (steps chain) + length es"
proof (induction es arbitrary: chain names)
  case Nil
  then show ?case by simp
next
  case (Cons e es)
  from Cons.prems obtain chain1 where
    a: "addStep_unless_empty chain = Inr chain1"
    and r: "append_delete_filters gcn an dry_run es
              (appendExpression gcn an chain1 e dry_run, names @ [gcn e]) = Inr (chain', names')"
    by (auto split: sum.splits)
  have "length (steps (appendExpression gcn an chain1 e dry_run)) = Suc (length (steps chain))"
    using addStep_unless_empty_length [OF a] by (simp add: length_steps_appendExpression)
  then show ?case using Cons.IH [OF r] by simp
qed

lemma length_steps_fold_appendExpression:
  "length (steps (fold (\<lambda>kv c. appendExpression gcn an c (snd kv) dry_run) kvs chain)) =
     (if kvs = [] then length (steps chain) else max 1 (length (steps chain)))"
  by (induction kvs arbitrary: chain) (auto simp add: length_steps_appendExpression)

lemma length_steps_add_to_last_actions [simp]:
  "length (steps (add_to_last_actions a chain)) = length (steps chain)"
  by (simp add: add_to_last_actions_def)

lemma length_steps_fold_add_to_last_actions [simp]:
  "length (steps (fold (\<lambda>kv c. add_to_last_actions (f kv) c) kvs chain)) = length (steps chain)"
  by (induction kvs arbitrary: chain) simp_all

lemma append_update_length:
  "append_update gcn an dry_run kvs chain = Inr chain' \<Longrightarrow>
   length (steps chain') =
     (if steps chain = [] then (if kvs = [] then 0 else 1) else Suc (length (steps chain)))"
  by (auto simp add: append_update_def Let_def length_steps_fold_appendExpression
      dest!: addStep_unless_empty_length split: sum.splits)

lemma negate_predicates_result:
  "negate_predicates ds = Inr fs \<Longrightarrow>
   \<exists>ps. map predicate ds = map Some ps \<and> fs = map (\<lambda>p. ASTFunction ''not'' [p]) ps"
proof (induction ds arbitrary: fs)
  case Nil
  then show ?case by simp
next
  case (Cons d ds)
  from Cons.prems obtain p fs' where
    p: "predicate d = Some p" and r: "negate_predicates ds = Inr fs'"
    and fs: "fs = ASTFunction ''not'' [p] # fs'"
    by (auto simp add: makeASTFunction_def clone_def split: option.splits sum.splits)
  from Cons.IH [OF r] obtain ps where
    "map predicate ds = map Some ps" "fs' = map (\<lambda>p. ASTFunction ''not'' [p]) ps" by blast
  then have "map predicate (d # ds) = map Some (p # ps)
      \<and> fs = map (\<lambda>p. ASTFunction ''not'' [p]) (p # ps)"
    using p fs by simp
  then show ?case by blast
qed

lemma negate_predicates_length:
  "negate_predicates ds = Inr fs \<Longrightarrow> length fs = length ds"
  using negate_predicates_result [of ds fs] by (metis length_map)




lemma ex_prepare: "prepare expression_text False ex_interpreter = Inr ex_prepared"
proof -
  have "\<not> isl (prepare expression_text False ex_interpreter)" by code_simp
  then show ?thesis unfolding ex_prepared_def by simp
qed

lemma prepare_stage_steps_nonempty:
  "prepare_stage gcn st all_columns dry_run s = Inr s' \<Longrightarrow> steps (expressions_chain s') \<noteq> []"
  by (auto simp add: prepare_stage_def Let_def finalize_def addStep_def map_last_def
      split: sum.splits prod.splits if_splits)

text \<open>
  C4. After \<^verbatim>\<open>prepare\<close> has completed, for every stage \<open>i \<ge> 1\<close> the chain of stage \<open>i\<close> has
  a first step, and the columns that step requires as input are all among the output
  columns of stage \<open>i - 1\<close>: the backward pass has inserted them, that is, the output
  columns of stage \<open>i - 1\<close> are those the forward pass left there with the required
  input of stage \<open>i\<close> inserted.
\<close>

theorem C4_required_input_propagated:
  "prepare gcn dry_run mi = Inr mi' \<and> 0 < i \<and> i < length (stages mi') \<longrightarrow>
     steps (expressions_chain (stages mi' ! i)) \<noteq> []
     \<and> set (getRequiredColumnsWithTypes
              (actions (hd (steps (expressions_chain (stages mi' ! i))))))
         \<subseteq> set (output_columns (stages mi' ! (i - 1)))
     \<and> (\<exists>sts1. stage_commands (emplace_back (stages mi)) (commands mi) = Inr sts1
           \<and> output_columns (stages mi' ! (i - 1)) =
               NameSet_insert_all (required_input (stages mi' ! i))
                 (output_columns
                    (forward_pass (getAllPhysical (getColumns (storage mi))) sts1 ! (i - 1))))"
proof
  let ?all = "getAllPhysical (getColumns (storage mi))"
  assume a: "prepare gcn dry_run mi = Inr mi' \<and> 0 < i \<and> i < length (stages mi')"
  then have p: "prepare gcn dry_run mi = Inr mi'" by simp
  from prepare_passes [OF p] obtain sts1 where
    s: "stage_commands (emplace_back (stages mi)) (commands mi) = Inr sts1"
    and l: "length (stages mi') = length sts1"
    and ps: "\<And>i. 0 < i \<Longrightarrow> i < length sts1 \<Longrightarrow>
          prepare_stage gcn (storage mi) ?all dry_run
            ((forward_pass ?all sts1 ! i)\<lparr>output_columns := output_columns (stages mi' ! i)\<rparr>)
          = Inr (stages mi' ! i)"
    and o: "\<And>i. 0 < i \<Longrightarrow> i < length sts1 \<Longrightarrow>
          output_columns (stages mi' ! (i - 1)) =
             NameSet_insert_all (required_input (stages mi' ! i))
               (output_columns (forward_pass ?all sts1 ! (i - 1)))"
    by metis
  have ne: "steps (expressions_chain (stages mi' ! i)) \<noteq> []"
    using ps [of i] a l prepare_stage_steps_nonempty by simp
  have e: "output_columns (stages mi' ! (i - 1)) =
             NameSet_insert_all (required_input (stages mi' ! i))
               (output_columns (forward_pass ?all sts1 ! (i - 1)))"
    using o [of i] a l by simp
  then have "set (required_input (stages mi' ! i)) \<subseteq> set (output_columns (stages mi' ! (i - 1)))"
    by simp
  then have sub: "set (getRequiredColumnsWithTypes
              (actions (hd (steps (expressions_chain (stages mi' ! i))))))
         \<subseteq> set (output_columns (stages mi' ! (i - 1)))"
    by (simp add: required_input_def)
  show "steps (expressions_chain (stages mi' ! i)) \<noteq> []
     \<and> set (getRequiredColumnsWithTypes
              (actions (hd (steps (expressions_chain (stages mi' ! i))))))
         \<subseteq> set (output_columns (stages mi' ! (i - 1)))
     \<and> (\<exists>sts1. stage_commands (emplace_back (stages mi)) (commands mi) = Inr sts1
           \<and> output_columns (stages mi' ! (i - 1)) =
               NameSet_insert_all (required_input (stages mi' ! i))
                 (output_columns (forward_pass ?all sts1 ! (i - 1))))"
    using ne sub s e by blast
qed

theorem C4_required_input_propagated_witness:
  "set (getRequiredColumnsWithTypes
          (actions (hd (steps (expressions_chain (stages ex_prepared ! 1))))))
     \<subseteq> set (output_columns (stages ex_prepared ! (1 - 1)))
   \<and> getRequiredColumnsWithTypes
        (actions (hd (steps (expressions_chain (stages ex_prepared ! 1))))) = [''a'', ''b'', ''c'']
   \<and> output_columns (stages ex_prepared ! 0) = [''a'', ''b'', ''c'']"
proof -
  have l: "length (stages ex_prepared) = 2" by code_simp
  have h: "prepare expression_text False ex_interpreter = Inr ex_prepared
      \<and> 0 < (1::nat) \<and> 1 < length (stages ex_prepared)"
    using ex_prepare l by simp
  have a: "set (getRequiredColumnsWithTypes
          (actions (hd (steps (expressions_chain (stages ex_prepared ! 1))))))
     \<subseteq> set (output_columns (stages ex_prepared ! (1 - 1)))"
    using C4_required_input_propagated [of expression_text False ex_interpreter ex_prepared 1,
        THEN mp, OF h]
    by (rule conjunct2 [THEN conjunct1])
  have b: "getRequiredColumnsWithTypes
        (actions (hd (steps (expressions_chain (stages ex_prepared ! 1))))) = [''a'', ''b'', ''c'']"
    by code_simp
  have c: "output_columns (stages ex_prepared ! 0) = [''a'', ''b'', ''c'']"
    by code_simp
  show ?thesis using a b c by (intro conjI)
qed

lemma validated_targets:
  assumes "validateUpdateColumns st cmds = Inr ()" and "c \<in> set cmds" and "type c = UPDATE"
  shows "set (map fst (column_to_update_expression c)) \<subseteq> set (map name (getAllPhysical (getColumns st)))"
proof -
  have "validation_result st (update_targets cmds) = Inr ()"
    using assms(1) by (simp add: validateUpdateColumns_eq)
  then have "find (\<lambda>n. n \<notin> set (map name (ordinary (getColumns st)))) (update_targets cmds) = None"
    by (auto simp add: validation_result_def split: option.splits if_splits)
  then have "\<forall>n \<in> set (update_targets cmds). n \<in> set (map name (ordinary (getColumns st)))"
    by (simp add: find_None_iff)
  moreover have "set (map fst (column_to_update_expression c)) \<subseteq> set (update_targets cmds)"
    using assms(2,3) by (auto simp add: update_targets_def)
  ultimately show ?thesis by (auto simp add: getAllPhysical_def)
qed

lemma staged_targets_known:
  assumes "staged sts" and "concat (map stage_commands_of sts) = cmds"
    and "validateUpdateColumns st cmds = Inr ()"
  shows "targets_known (getAllPhysical (getColumns st)) sts"
  unfolding targets_known_def
proof (intro ballI allI impI)
  fix s u assume s: "s \<in> set sts" and u: "update s = Some u"
  have "u \<in> set (stage_commands_of s)" using u by (simp add: stage_commands_of_def)
  then have "u \<in> set cmds" using s assms(2) by auto
  moreover have "type u = UPDATE" using assms(1) s u by (simp add: staged_def)
  ultimately show "set (map fst (column_to_update_expression u))
      \<subseteq> set (map name (getAllPhysical (getColumns st)))"
    using validated_targets [OF assms(3)] by blast
qed

lemma forward_output_mono:
  assumes "\<forall>s \<in> set sts. output_columns s = []" and "targets_known all_columns sts"
    and "Suc i < length sts"
  shows "set (forward_output all_columns sts i) \<subseteq> set (forward_output all_columns sts (Suc i))"
proof -
  have "i < length sts" using assms(3) by simp
  from forward_output_invariant [OF assms(1,2) this]
  have "set (forward_output all_columns sts i) \<subseteq> set (map name all_columns)" by simp
  then show ?thesis
    by (auto simp add: code_output_columns_def Let_def split: option.splits)
qed

text \<open>
  C5 (as amended). After the forward pass, the output columns of every stage \<open>i \<ge> 1\<close>
  contain those of stage \<open>i - 1\<close>. After \<^verbatim>\<open>prepare\<close> has completed, that is after the
  backward pass too, every output column of stage \<open>i - 1\<close> is an output column of stage
  \<open>i\<close> or a column that the first step of the chain of stage \<open>i\<close> requires as input.
\<close>

theorem C5_output_columns_up_to_required_input:
  "prepare gcn dry_run mi = Inr mi' \<and> stages mi = [] \<and> 0 < i \<and> i < length (stages mi') \<longrightarrow>
     set (output_columns (stages mi' ! (i - 1)))
       \<subseteq> set (output_columns (stages mi' ! i)) \<union> set (required_input (stages mi' ! i))
     \<and> (\<exists>sts1. stage_commands [new_Stage] (commands mi) = Inr sts1
           \<and> set (output_columns
                   (forward_pass (getAllPhysical (getColumns (storage mi))) sts1 ! (i - 1)))
               \<subseteq> set (output_columns
                   (forward_pass (getAllPhysical (getColumns (storage mi))) sts1 ! i)))"
proof
  let ?all = "getAllPhysical (getColumns (storage mi))"
  assume a: "prepare gcn dry_run mi = Inr mi' \<and> stages mi = [] \<and> 0 < i \<and> i < length (stages mi')"
  then have p: "prepare gcn dry_run mi = Inr mi'" and fresh: "stages mi = []"
    and i0: "0 < i" by simp_all
  have v: "validateUpdateColumns (storage mi) (commands mi) = Inr ()"
    using prepare_result [OF p] by blast
  from prepare_passes [OF p] obtain sts1 where
    s: "stage_commands (emplace_back (stages mi)) (commands mi) = Inr sts1"
    and l: "length (stages mi') = length sts1"
    and top: "output_columns (stages mi' ! (length sts1 - 1)) =
          output_columns (forward_pass ?all sts1 ! (length sts1 - 1))"
    and o: "\<And>i. 0 < i \<Longrightarrow> i < length sts1 \<Longrightarrow>
          output_columns (stages mi' ! (i - 1)) =
             NameSet_insert_all (required_input (stages mi' ! i))
               (output_columns (forward_pass ?all sts1 ! (i - 1)))"
    by metis
  have s': "stage_commands [new_Stage] (commands mi) = Inr sts1"
    using s fresh by (simp add: emplace_back_def)
  from stage_commands_staged [OF staged_initial s']
  have st: "staged sts1" and fl: "concat (map stage_commands_of sts1) = commands mi" by simp_all
  have tk: "targets_known ?all sts1" using staged_targets_known [OF st fl v] .
  have fr: "\<forall>s \<in> set sts1. output_columns s = []"
    using st by (simp add: staged_def unprepared_def)
  have i: "i < length sts1" using a l by simp
  obtain k where k: "i = Suc k" using i0 by (cases i) auto
  have fwd: "set (output_columns (forward_pass ?all sts1 ! (i - 1)))
      \<subseteq> set (output_columns (forward_pass ?all sts1 ! i))"
    using forward_output_mono [OF fr tk, of k] i k by (simp add: forward_pass_nth)
  have below: "set (output_columns (stages mi' ! (i - 1)))
      = set (required_input (stages mi' ! i)) \<union> set (output_columns (forward_pass ?all sts1 ! (i - 1)))"
    using o [OF i0 i] by simp
  have above: "set (output_columns (forward_pass ?all sts1 ! i)) \<subseteq> set (output_columns (stages mi' ! i))"
  proof (cases "Suc i < length sts1")
    case True
    then show ?thesis using o [of "Suc i"] by simp
  next
    case False
    then have "i = length sts1 - 1" using i by simp
    then show ?thesis using top by simp
  qed
  show "set (output_columns (stages mi' ! (i - 1)))
       \<subseteq> set (output_columns (stages mi' ! i)) \<union> set (required_input (stages mi' ! i))
     \<and> (\<exists>sts1. stage_commands [new_Stage] (commands mi) = Inr sts1
           \<and> set (output_columns (forward_pass ?all sts1 ! (i - 1)))
               \<subseteq> set (output_columns (forward_pass ?all sts1 ! i)))"
    using below above fwd s' by blast
qed

theorem C5_output_columns_up_to_required_input_witness:
  "set (output_columns (stages ex_prepared ! (1 - 1)))
       \<subseteq> set (output_columns (stages ex_prepared ! 1)) \<union> set (required_input (stages ex_prepared ! 1))
   \<and> output_columns (stages ex_prepared ! 0) = [''a'', ''b'', ''c'']
   \<and> output_columns (stages ex_prepared ! 1) = [''a'']
   \<and> required_input (stages ex_prepared ! 1) = [''a'', ''b'', ''c'']"
proof -
  have l: "length (stages ex_prepared) = 2" by code_simp
  have h: "prepare expression_text False ex_interpreter = Inr ex_prepared
      \<and> stages ex_interpreter = [] \<and> 0 < (1::nat) \<and> 1 < length (stages ex_prepared)"
    using ex_prepare l by (simp add: ex_interpreter_def new_MutationsInterpreter_def)
  have a: "set (output_columns (stages ex_prepared ! (1 - 1)))
       \<subseteq> set (output_columns (stages ex_prepared ! 1)) \<union> set (required_input (stages ex_prepared ! 1))"
    using C5_output_columns_up_to_required_input
      [of expression_text False ex_interpreter ex_prepared 1, THEN mp, OF h]
    by (rule conjunct1)
  have b: "output_columns (stages ex_prepared ! 0) = [''a'', ''b'', ''c'']" by code_simp
  have c: "output_columns (stages ex_prepared ! 1) = [''a'']" by code_simp
  have d: "required_input (stages ex_prepared ! 1) = [''a'', ''b'', ''c'']" by code_simp
  show ?thesis using a b c d by (intro conjI)
qed


text \<open>
  The claim as it was stated fails for \<^verbatim>\<open>UPDATE a = b WHERE c\<close>: stage 1 puts out the
  column \<open>a\<close> only, and stage 0 must put out \<open>a\<close>, \<open>b\<close> and \<open>c\<close> for it.
\<close>

theorem C5_counterexample:
  "output_columns_after_prepare expression_text False
     (new_MutationsInterpreter ex_storage [ex_update] ex_context)
     = Inr [ [''a'', ''b'', ''c''], [''a'']]
   \<and> \<not> each_contains_previous [ [''a'', ''b'', ''c''], [''a'']]"
proof -
  have "output_columns_after_prepare expression_text False
     (new_MutationsInterpreter ex_storage [ex_update] ex_context)
     = Inr [ [''a'', ''b'', ''c''], [''a'']]"
    by code_simp
  moreover have "\<not> each_contains_previous [ [''a'', ''b'', ''c''], [''a'']]"
    by simp
  ultimately show ?thesis by (rule conjI)
qed

section \<open>The first stage as a SELECT\<close>

lemma first_stage_select_result:
  assumes "first_stage_select s = Inr q"
  shows "select_expression_list q = map ASTIdentifier (output_columns s)
     \<and> (\<exists>ps. map predicate (deletes s) = map Some ps \<and> where_expression q = first_stage_where ps)"
proof (cases "deletes s = []")
  case True
  then show ?thesis
    using assms by (auto simp add: first_stage_select_def first_stage_where_def)
next
  case False
  with assms obtain fs where n: "negate_predicates (deletes s) = Inr fs"
    and q: "q = \<lparr>select_expression_list = map ASTIdentifier (output_columns s),
               where_expression = Some (if length (deletes s) = 1 then hd fs
                                        else ASTFunction ''and'' fs)\<rparr>"
    by (auto simp add: first_stage_select_def Let_def split: sum.splits)
  from negate_predicates_result [OF n] obtain ps where
    ps: "map predicate (deletes s) = map Some ps" and fs: "fs = map (\<lambda>p. ASTFunction ''not'' [p]) ps"
    by blast
  have l: "length ps = length (deletes s)" using ps by (metis length_map)
  have "where_expression q = first_stage_where ps"
  proof (cases ps)
    case Nil
    then show ?thesis using l False by simp
  next
    case (Cons p ps')
    then show ?thesis
      using q fs l by (cases ps') (simp_all add: first_stage_where_def)
  qed
  then show ?thesis using q ps by auto
qed

text \<open>
  C6. When \<^verbatim>\<open>prepare\<close> has completed, the read query of stage 0 (on the storage and the
  context of the interpreter, to the last processing stage) selects exactly the output
  columns of stage 0, one identifier each; every delete of stage 0 has a predicate, and
  the WHERE clause is absent if stage 0 has no delete, \<open>not(p)\<close> if it has exactly one
  delete with predicate \<open>p\<close>, and the \<open>and\<close> of the \<open>not(p)\<close> of its deletes in their
  order if it has more.
\<close>

theorem C6_first_stage_select:
  "prepare gcn dry_run mi = Inr mi' \<longrightarrow>
     (\<exists>isq ps. interpreter_select mi' = Some isq
        \<and> select_storage isq = storage mi \<and> select_context isq = current_context mi
        \<and> to_stage isq = Complete \<and> only_analyze isq = dry_run
        \<and> select_expression_list (query_ptr isq)
            = map ASTIdentifier (output_columns (stages mi' ! 0))
        \<and> map predicate (deletes (stages mi' ! 0)) = map Some ps
        \<and> where_expression (query_ptr isq) = first_stage_where ps)"
proof
  assume p: "prepare gcn dry_run mi = Inr mi'"
  from prepare_result [OF p] obtain select where
    f: "first_stage_select (stages mi' ! 0) = Inr select"
    and m: "mi' = mi\<lparr>stages := stages mi',
                 interpreter_select := Some
                   \<lparr>query_ptr = select, select_context = current_context mi,
                    select_storage = storage mi, to_stage = Complete,
                    only_analyze = dry_run\<rparr>,
                 is_prepared := True\<rparr>"
    by blast
  have i: "interpreter_select mi' = Some
                   \<lparr>query_ptr = select, select_context = current_context mi,
                    select_storage = storage mi, to_stage = Complete,
                    only_analyze = dry_run\<rparr>"
    by (subst m) simp
  from first_stage_select_result [OF f] obtain ps where
    "select_expression_list select = map ASTIdentifier (output_columns (stages mi' ! 0))"
    "map predicate (deletes (stages mi' ! 0)) = map Some ps"
    "where_expression select = first_stage_where ps"
    by blast
  then show "\<exists>isq ps. interpreter_select mi' = Some isq
        \<and> select_storage isq = storage mi \<and> select_context isq = current_context mi
        \<and> to_stage isq = Complete \<and> only_analyze isq = dry_run
        \<and> select_expression_list (query_ptr isq)
            = map ASTIdentifier (output_columns (stages mi' ! 0))
        \<and> map predicate (deletes (stages mi' ! 0)) = map Some ps
        \<and> where_expression (query_ptr isq) = first_stage_where ps"
    using i by simp
qed

lemma ex_two_deletes_prepare:
  "prepare expression_text True ex_two_deletes = Inr ex_two_deletes_prepared"
proof -
  have "\<not> isl (prepare expression_text True ex_two_deletes)" by code_simp
  then show ?thesis unfolding ex_two_deletes_prepared_def by simp
qed

theorem C6_first_stage_select_witness:
  "map (query_ptr) (case interpreter_select ex_two_deletes_prepared of None \<Rightarrow> [] | Some isq \<Rightarrow> [isq])
     = [\<lparr>select_expression_list =
           [ASTIdentifier ''a'', ASTIdentifier ''b'', ASTIdentifier ''c'', ASTIdentifier ''m''],
         where_expression = first_stage_where [ASTIdentifier ''b'', ASTIdentifier ''c'']\<rparr>]
   \<and> first_stage_where [ASTIdentifier ''b'', ASTIdentifier ''c'']
       = Some (ASTFunction ''and'' [ASTFunction ''not'' [ASTIdentifier ''b''],
                                     ASTFunction ''not'' [ASTIdentifier ''c'']])
   \<and> output_columns (stages ex_two_deletes_prepared ! 0) = [''a'', ''b'', ''c'', ''m'']
   \<and> map predicate (deletes (stages ex_two_deletes_prepared ! 0))
       = map Some [ASTIdentifier ''b'', ASTIdentifier ''c'']"
proof -
  from C6_first_stage_select [of expression_text True ex_two_deletes ex_two_deletes_prepared,
      THEN mp, OF ex_two_deletes_prepare]
  obtain isq ps where
    i: "interpreter_select ex_two_deletes_prepared = Some isq"
    and s: "select_expression_list (query_ptr isq)
            = map ASTIdentifier (output_columns (stages ex_two_deletes_prepared ! 0))"
    and p: "map predicate (deletes (stages ex_two_deletes_prepared ! 0)) = map Some ps"
    and w: "where_expression (query_ptr isq) = first_stage_where ps"
    by blast
  have o: "output_columns (stages ex_two_deletes_prepared ! 0) = [''a'', ''b'', ''c'', ''m'']"
    by code_simp
  have d: "map predicate (deletes (stages ex_two_deletes_prepared ! 0))
       = map Some [ASTIdentifier ''b'', ASTIdentifier ''c'']"
    by code_simp
  have ps: "ps = [ASTIdentifier ''b'', ASTIdentifier ''c'']"
    using p d by (auto simp add: Cons_eq_map_conv)
  have q: "query_ptr isq = \<lparr>select_expression_list =
           [ASTIdentifier ''a'', ASTIdentifier ''b'', ASTIdentifier ''c'', ASTIdentifier ''m''],
         where_expression = first_stage_where [ASTIdentifier ''b'', ASTIdentifier ''c'']\<rparr>"
    using s w o ps by (cases "query_ptr isq") simp
  have f: "first_stage_where [ASTIdentifier ''b'', ASTIdentifier ''c'']
       = Some (ASTFunction ''and'' [ASTFunction ''not'' [ASTIdentifier ''b''],
                                     ASTFunction ''not'' [ASTIdentifier ''c'']])"
    by (simp add: first_stage_where_def)
  show ?thesis using i q f o d by simp
qed


section \<open>The check for touched rows\<close>

lemma touches_all_rows_iff: "touches_all_rows cmds \<longleftrightarrow> (\<exists>c \<in> set cmds. predicate c = None)"
  by (induction cmds) auto

lemma predicates_all_some:
  "\<forall>c \<in> set cmds. predicate c \<noteq> None \<Longrightarrow> map predicate cmds = map Some (predicates cmds)"
  by (induction cmds) auto

lemma count_select_where:
  assumes "cmds \<noteq> []" and "\<forall>c \<in> set cmds. predicate c \<noteq> None"
  shows "where_expression (count_select cmds) = count_where (predicates cmds)"
proof (cases cmds)
  case Nil
  then show ?thesis using assms(1) by simp
next
  case (Cons c rest)
  then obtain p where p: "predicate c = Some p" using assms(2) by auto
  show ?thesis
  proof (cases rest)
    case Nil
    then show ?thesis using Cons p by (simp add: count_select_def count_where_def)
  next
    case (Cons c' rest')
    then obtain p' where "predicate c' = Some p'" using assms(2) \<open>cmds = c # rest\<close> by auto
    then show ?thesis
      using Cons \<open>cmds = c # rest\<close> p by (simp add: count_select_def count_where_def)
  qed
qed

text \<open>
  C7. \<^verbatim>\<open>isStorageTouchedByMutations\<close> returns false for the empty command list; returns
  true for a list with a command without predicate, whatever reading the storage would
  give (nothing is read); and otherwise gives the result of one query,
  \<^verbatim>\<open>SELECT count()\<close> with the predicate of the lone command as WHERE clause, or the \<open>or\<close> of
  all predicates in order when there are several commands. That query is built on the
  storage of the interpreter, up to the processing stage \<open>Complete\<close>, not as a dry run,
  and in a copy of the stored context with \<open>max_threads = 1\<close> and
  \<open>merge_tree_uniform_read_distribution = 0\<close>. Of the first block read:
  no row gives false, one row gives \<open>count \<noteq> 0\<close>, any other number of rows is a
  \<open>LOGICAL_ERROR\<close>.
\<close>

theorem C7_isTouched:
  "(commands mi = [] \<longrightarrow> fst (isStorageTouchedByMutations read_block mi) = Inr False)
   \<and> ((\<exists>c \<in> set (commands mi). predicate c = None) \<longrightarrow>
        fst (isStorageTouchedByMutations read_block mi) = Inr True)
   \<and> (commands mi \<noteq> [] \<and> (\<forall>c \<in> set (commands mi). predicate c \<noteq> None) \<longrightarrow>
        fst (isStorageTouchedByMutations read_block mi) =
          (case read_block (count_interpreter_select mi) of
             Inl e \<Rightarrow> Inl e
           | Inr block \<Rightarrow> count_result block)
        \<and> select_expression_list (query_ptr (count_interpreter_select mi))
            = [ASTFunction ''count'' []]
        \<and> (\<exists>ps. map predicate (commands mi) = map Some ps
              \<and> where_expression (query_ptr (count_interpreter_select mi)) = count_where ps)
        \<and> select_storage (count_interpreter_select mi) = storage mi
        \<and> to_stage (count_interpreter_select mi) = Complete
        \<and> only_analyze (count_interpreter_select mi) = False
        \<and> select_context (count_interpreter_select mi) =
            (current_context mi)\<lparr>getSettingsRef :=
               (getSettingsRef (current_context mi))
                 \<lparr>max_threads := 1, merge_tree_uniform_read_distribution := 0\<rparr>\<rparr>)
   \<and> (rows block = 0 \<longrightarrow> count_result block = Inr False)
   \<and> (rows block = 1 \<and> map_of block ''count()'' = Some (UInt64 n # rest) \<longrightarrow>
        count_result block = Inr (n \<noteq> 0))
   \<and> (rows block \<noteq> 0 \<and> rows block \<noteq> 1 \<longrightarrow> count_result block = Inl LOGICAL_ERROR)"
proof -
  have 1: "commands mi = [] \<longrightarrow> fst (isStorageTouchedByMutations read_block mi) = Inr False"
    by (simp add: isStorageTouchedByMutations_def)
  have 2: "(\<exists>c \<in> set (commands mi). predicate c = None) \<longrightarrow>
        fst (isStorageTouchedByMutations read_block mi) = Inr True"
    by (auto simp add: isStorageTouchedByMutations_def touches_all_rows_iff)
  have 3: "commands mi \<noteq> [] \<and> (\<forall>c \<in> set (commands mi). predicate c \<noteq> None) \<longrightarrow>
        fst (isStorageTouchedByMutations read_block mi) =
          (case read_block (count_interpreter_select mi) of
             Inl e \<Rightarrow> Inl e
           | Inr block \<Rightarrow> count_result block)
        \<and> select_expression_list (query_ptr (count_interpreter_select mi))
            = [ASTFunction ''count'' []]
        \<and> (\<exists>ps. map predicate (commands mi) = map Some ps
              \<and> where_expression (query_ptr (count_interpreter_select mi)) = count_where ps)
        \<and> select_storage (count_interpreter_select mi) = storage mi
        \<and> to_stage (count_interpreter_select mi) = Complete
        \<and> only_analyze (count_interpreter_select mi) = False
        \<and> select_context (count_interpreter_select mi) =
            (current_context mi)\<lparr>getSettingsRef :=
               (getSettingsRef (current_context mi))
                 \<lparr>max_threads := 1, merge_tree_uniform_read_distribution := 0\<rparr>\<rparr>"
  proof
    assume a: "commands mi \<noteq> [] \<and> (\<forall>c \<in> set (commands mi). predicate c \<noteq> None)"
    then have nt: "\<not> touches_all_rows (commands mi)" by (simp add: touches_all_rows_iff)
    have r: "fst (isStorageTouchedByMutations read_block mi) =
          (case read_block (count_interpreter_select mi) of
             Inl e \<Rightarrow> Inl e
           | Inr block \<Rightarrow> count_result block)"
      using a nt by (simp add: isStorageTouchedByMutations_def split: sum.splits)
    have s: "select_expression_list (query_ptr (count_interpreter_select mi))
            = [ASTFunction ''count'' []]"
      by (simp add: count_interpreter_select_def count_select_def Let_def)
    have w: "where_expression (query_ptr (count_interpreter_select mi))
        = count_where (predicates (commands mi))"
      using a count_select_where by (simp add: count_interpreter_select_def Let_def)
    have q: "select_storage (count_interpreter_select mi) = storage mi
        \<and> to_stage (count_interpreter_select mi) = Complete
        \<and> only_analyze (count_interpreter_select mi) = False
        \<and> select_context (count_interpreter_select mi) =
            (current_context mi)\<lparr>getSettingsRef :=
               (getSettingsRef (current_context mi))
                 \<lparr>max_threads := 1, merge_tree_uniform_read_distribution := 0\<rparr>\<rparr>"
      by (simp add: count_interpreter_select_def Let_def)
    have "map predicate (commands mi) = map Some (predicates (commands mi))"
      using a predicates_all_some by blast
    then show "fst (isStorageTouchedByMutations read_block mi) =
          (case read_block (count_interpreter_select mi) of
             Inl e \<Rightarrow> Inl e
           | Inr block \<Rightarrow> count_result block)
        \<and> select_expression_list (query_ptr (count_interpreter_select mi))
            = [ASTFunction ''count'' []]
        \<and> (\<exists>ps. map predicate (commands mi) = map Some ps
              \<and> where_expression (query_ptr (count_interpreter_select mi)) = count_where ps)
        \<and> select_storage (count_interpreter_select mi) = storage mi
        \<and> to_stage (count_interpreter_select mi) = Complete
        \<and> only_analyze (count_interpreter_select mi) = False
        \<and> select_context (count_interpreter_select mi) =
            (current_context mi)\<lparr>getSettingsRef :=
               (getSettingsRef (current_context mi))
                 \<lparr>max_threads := 1, merge_tree_uniform_read_distribution := 0\<rparr>\<rparr>"
      using r s w q by blast
  qed
  have 4: "rows block = 0 \<longrightarrow> count_result block = Inr False"
    by (simp add: count_result_def)
  have 5: "rows block = 1 \<and> map_of block ''count()'' = Some (UInt64 n # rest) \<longrightarrow>
        count_result block = Inr (n \<noteq> 0)"
    by (simp add: count_result_def getByName_def first_UInt64_def)
  have 6: "rows block \<noteq> 0 \<and> rows block \<noteq> 1 \<longrightarrow> count_result block = Inl LOGICAL_ERROR"
    by (simp add: count_result_def)
  show ?thesis using 1 2 3 4 5 6 by blast
qed

theorem C7_isTouched_witness:
  "fst (isStorageTouchedByMutations ex_read_zero ex_update_delete) = Inr False
   \<and> where_expression (query_ptr (count_interpreter_select ex_update_delete))
       = Some (ASTFunction ''or'' [ASTIdentifier ''c'', ASTIdentifier ''b''])
   \<and> select_storage (count_interpreter_select ex_update_delete) = ex_storage
   \<and> to_stage (count_interpreter_select ex_update_delete) = Complete
   \<and> only_analyze (count_interpreter_select ex_update_delete) = False
   \<and> getSettingsRef (select_context (count_interpreter_select ex_update_delete))
       = \<lparr>max_threads = 1, merge_tree_uniform_read_distribution = 0,
          max_rows_to_transfer = 0, max_bytes_to_transfer = 0, transfer_overflow_mode = 0\<rparr>
   \<and> fst (isStorageTouchedByMutations ex_read_fails
        (new_MutationsInterpreter ex_storage [ex_delete, ex_other] ex_context)) = Inr True
   \<and> fst (isStorageTouchedByMutations ex_read_fails
        (new_MutationsInterpreter ex_storage [] ex_context)) = Inr False
   \<and> count_result [(''count()'', [UInt64 5])] = Inr True
   \<and> count_result [(''count()'', [UInt64 1, UInt64 2])] = Inl LOGICAL_ERROR
   \<and> count_result [] = Inr False"
proof -
  let ?all = "new_MutationsInterpreter ex_storage [ex_delete, ex_other] ex_context"
  let ?none = "new_MutationsInterpreter ex_storage [] ex_context"
  note T = C7_isTouched [of ex_update_delete ex_read_zero "[(''count()'', [UInt64 5])]" 5 "[]"]
  note U = C7_isTouched [of ?all ex_read_fails "[(''count()'', [UInt64 1, UInt64 2])]" 5 "[]"]
  note V = C7_isTouched [of ?none ex_read_fails "[]" 5 "[]"]
  have h: "commands ex_update_delete \<noteq> []
      \<and> (\<forall>c \<in> set (commands ex_update_delete). predicate c \<noteq> None)"
    by (simp add: ex_update_delete_def new_MutationsInterpreter_def ex_update_def ex_delete_def)
  note T3 = T [THEN conjunct2, THEN conjunct2, THEN conjunct1, THEN mp, OF h]
  have "count_result [(''count()'', [UInt64 0])] = Inr False"
    by (simp add: count_result_def rows_def getByName_def first_UInt64_def)
  then have a: "fst (isStorageTouchedByMutations ex_read_zero ex_update_delete) = Inr False"
    using T3 [THEN conjunct1] by (simp add: ex_read_zero_def)
  from T3 [THEN conjunct2, THEN conjunct2, THEN conjunct1] obtain ps where
    ps: "map predicate (commands ex_update_delete) = map Some ps"
    and w: "where_expression (query_ptr (count_interpreter_select ex_update_delete)) = count_where ps"
    by blast
  have "ps = [ASTIdentifier ''c'', ASTIdentifier ''b'']"
    using ps
    by (auto simp add: ex_update_delete_def new_MutationsInterpreter_def ex_update_def
        ex_delete_def Cons_eq_map_conv)
  then have b: "where_expression (query_ptr (count_interpreter_select ex_update_delete))
       = Some (ASTFunction ''or'' [ASTIdentifier ''c'', ASTIdentifier ''b''])"
    using w by (simp add: count_where_def)
  note Q = T3 [THEN conjunct2, THEN conjunct2, THEN conjunct2]
  have q1: "select_storage (count_interpreter_select ex_update_delete) = ex_storage"
    using Q [THEN conjunct1] by (simp add: ex_update_delete_def new_MutationsInterpreter_def)
  have q2: "to_stage (count_interpreter_select ex_update_delete) = Complete"
    using Q [THEN conjunct2, THEN conjunct1] .
  have q3: "only_analyze (count_interpreter_select ex_update_delete) = False"
    using Q [THEN conjunct2, THEN conjunct2, THEN conjunct1] .
  have q4: "getSettingsRef (select_context (count_interpreter_select ex_update_delete))
       = \<lparr>max_threads = 1, merge_tree_uniform_read_distribution = 0,
          max_rows_to_transfer = 0, max_bytes_to_transfer = 0, transfer_overflow_mode = 0\<rparr>"
    using Q [THEN conjunct2, THEN conjunct2, THEN conjunct2]
    by (simp add: ex_update_delete_def new_MutationsInterpreter_def ex_context_def)
  have "\<exists>c \<in> set (commands ?all). predicate c = None"
    by (simp add: new_MutationsInterpreter_def ex_other_def)
  then have c: "fst (isStorageTouchedByMutations ex_read_fails ?all) = Inr True"
    by (rule U [THEN conjunct2, THEN conjunct1, THEN mp])
  have "commands ?none = []" by (simp add: new_MutationsInterpreter_def)
  then have d: "fst (isStorageTouchedByMutations ex_read_fails ?none) = Inr False"
    by (rule V [THEN conjunct1, THEN mp])
  have e: "count_result [(''count()'', [UInt64 5])] = Inr True"
    using T [THEN conjunct2, THEN conjunct2, THEN conjunct2, THEN conjunct2, THEN conjunct1]
    by (simp add: rows_def)
  have f: "count_result [(''count()'', [UInt64 1, UInt64 2])] = Inl LOGICAL_ERROR"
    using U [THEN conjunct2, THEN conjunct2, THEN conjunct2, THEN conjunct2, THEN conjunct2]
    by (simp add: rows_def)
  have g: "count_result [] = Inr False"
    using V [THEN conjunct2, THEN conjunct2, THEN conjunct2, THEN conjunct1]
    by (simp add: rows_def)
  show ?thesis using a b q1 q2 q3 q4 c d e f g by (intro conjI)
qed

text \<open>
  C10. \<^verbatim>\<open>isStorageTouchedByMutations\<close> leaves the interpreter as it was: the stored
  context, the commands, the stages and the prepared flag are the same after the call.
  The settings \<open>max_threads = 1\<close> and \<open>merge_tree_uniform_read_distribution = 0\<close> are in
  the context of the counting query only, which is a copy of the stored one.
\<close>

theorem C10_isTouched_keeps_the_interpreter:
  "snd (isStorageTouchedByMutations read_block mi) = mi
   \<and> current_context (snd (isStorageTouchedByMutations read_block mi)) = current_context mi
   \<and> commands (snd (isStorageTouchedByMutations read_block mi)) = commands mi
   \<and> stages (snd (isStorageTouchedByMutations read_block mi)) = stages mi
   \<and> is_prepared (snd (isStorageTouchedByMutations read_block mi)) = is_prepared mi
   \<and> select_context (count_interpreter_select mi) =
       (current_context mi)\<lparr>getSettingsRef :=
          (getSettingsRef (current_context mi))
            \<lparr>max_threads := 1, merge_tree_uniform_read_distribution := 0\<rparr>\<rparr>"
proof -
  have "snd (isStorageTouchedByMutations read_block mi) = mi"
    by (simp add: isStorageTouchedByMutations_def split: sum.splits)
  moreover have "select_context (count_interpreter_select mi) =
       (current_context mi)\<lparr>getSettingsRef :=
          (getSettingsRef (current_context mi))
            \<lparr>max_threads := 1, merge_tree_uniform_read_distribution := 0\<rparr>\<rparr>"
    by (simp add: count_interpreter_select_def Let_def)
  ultimately show ?thesis by simp
qed

theorem C10_isTouched_keeps_the_interpreter_witness:
  "snd (isStorageTouchedByMutations ex_read_zero ex_update_delete) = ex_update_delete
   \<and> getSettingsRef (select_context (count_interpreter_select ex_update_delete))
       = \<lparr>max_threads = 1, merge_tree_uniform_read_distribution = 0,
          max_rows_to_transfer = 0, max_bytes_to_transfer = 0, transfer_overflow_mode = 0\<rparr>
   \<and> getSettingsRef (current_context (snd (isStorageTouchedByMutations ex_read_zero ex_update_delete)))
       = \<lparr>max_threads = 8, merge_tree_uniform_read_distribution = 1,
          max_rows_to_transfer = 0, max_bytes_to_transfer = 0, transfer_overflow_mode = 0\<rparr>"
proof -
  note T = C10_isTouched_keeps_the_interpreter [of ex_read_zero ex_update_delete]
  have a: "snd (isStorageTouchedByMutations ex_read_zero ex_update_delete) = ex_update_delete"
    by (rule T [THEN conjunct1])
  have b: "getSettingsRef (select_context (count_interpreter_select ex_update_delete))
       = \<lparr>max_threads = 1, merge_tree_uniform_read_distribution = 0,
          max_rows_to_transfer = 0, max_bytes_to_transfer = 0, transfer_overflow_mode = 0\<rparr>"
    using T [THEN conjunct2, THEN conjunct2, THEN conjunct2, THEN conjunct2, THEN conjunct2]
    by (simp add: ex_update_delete_def new_MutationsInterpreter_def ex_context_def)
  have c: "getSettingsRef (current_context (snd (isStorageTouchedByMutations ex_read_zero ex_update_delete)))
       = \<lparr>max_threads = 8, merge_tree_uniform_read_distribution = 1,
          max_rows_to_transfer = 0, max_bytes_to_transfer = 0, transfer_overflow_mode = 0\<rparr>"
    using T [THEN conjunct2, THEN conjunct1]
    by (simp add: ex_update_delete_def new_MutationsInterpreter_def ex_context_def)
  show ?thesis using a b c by (intro conjI)
qed

section \<open>The streams of the later stages\<close>





lemma prepared_stage_origin:
  assumes "prepare gcn dry_run mi = Inr mi'" and "stages mi = []"
    and "0 < i" and "i < length (stages mi')"
  shows "\<exists>s0. prepare_stage gcn (storage mi) (getAllPhysical (getColumns (storage mi))) dry_run s0
           = Inr (stages mi' ! i)
     \<and> steps (expressions_chain s0) = [] \<and> delete_filter_column_names s0 = []
     \<and> output_columns s0 = output_columns (stages mi' ! i)
     \<and> deletes s0 = deletes (stages mi' ! i) \<and> update s0 = update (stages mi' ! i)"
proof -
  let ?all = "getAllPhysical (getColumns (storage mi))"
  from prepare_passes [OF assms(1)] obtain sts1 where
    s: "stage_commands (emplace_back (stages mi)) (commands mi) = Inr sts1"
    and l: "length (stages mi') = length sts1"
    and ps: "\<And>i. 0 < i \<Longrightarrow> i < length sts1 \<Longrightarrow>
          prepare_stage gcn (storage mi) ?all dry_run
            ((forward_pass ?all sts1 ! i)\<lparr>output_columns := output_columns (stages mi' ! i)\<rparr>)
          = Inr (stages mi' ! i)"
    by metis
  have s': "stage_commands [new_Stage] (commands mi) = Inr sts1"
    using s assms(2) by (simp add: emplace_back_def)
  from stage_commands_staged [OF staged_initial s'] have st: "staged sts1" by simp
  have i: "i < length sts1" using assms(4) l by simp
  then have "sts1 ! i \<in> set sts1" by simp
  then have u: "unprepared (sts1 ! i)" using st by (simp add: staged_def)
  let ?s0 = "(forward_pass ?all sts1 ! i)\<lparr>output_columns := output_columns (stages mi' ! i)\<rparr>"
  have p: "prepare_stage gcn (storage mi) ?all dry_run ?s0 = Inr (stages mi' ! i)"
    using ps [OF assms(3) i] .
  have "steps (expressions_chain ?s0) = [] \<and> delete_filter_column_names ?s0 = []
      \<and> output_columns ?s0 = output_columns (stages mi' ! i)"
    using u i by (simp add: forward_pass_nth unprepared_def)
  moreover have "deletes ?s0 = deletes (stages mi' ! i) \<and> update ?s0 = update (stages mi' ! i)"
    using prepare_stage_fields [OF p] by simp
  ultimately show ?thesis using p by blast
qed




























section \<open>The expressions of an update\<close>

lemma updated_columns_result:
  "updated_columns st upd kvs = Inr us \<Longrightarrow>
   list_all2 (\<lambda>kv u. \<exists>p col. predicate upd = Some p \<and> getColumn st (fst kv) = Inr col
        \<and> u = (fst kv, cast_if p (snd kv) (fst kv) (type_name col))) kvs us"
proof (induction kvs arbitrary: us)
  case Nil
  then show ?case by simp
next
  case (Cons kv kvs)
  from Cons.prems obtain u us' where
    u: "updated_column st upd kv = Inr u" and r: "updated_columns st upd kvs = Inr us'"
    and us: "us = (fst kv, u) # us'"
    by (auto split: sum.splits)
  from u obtain p col where "predicate upd = Some p" "getColumn st (fst kv) = Inr col"
    "u = cast_if p (snd kv) (fst kv) (type_name col)"
    by (auto simp add: updated_column_def cast_if_def makeASTFunction_def clone_def
        split: option.splits sum.splits)
  then show ?case using Cons.IH [OF r] us by auto
qed

lemma fold_emplace_distinct:
  "distinct (map fst m @ map fst us) \<Longrightarrow> fold emplace us m = m @ us"
proof (induction us arbitrary: m)
  case Nil
  then show ?case by simp
next
  case (Cons u us)
  have "emplace u m = m @ [u]" using Cons.prems by (auto simp add: emplace_def)
  then show ?case using Cons.IH [of "m @ [u]"] Cons.prems by simp
qed

lemma last_action_list_appendExpression:
  "last_action_list (appendExpression gcn an chain e dry_run) =
     last_action_list chain @ [ComputeColumn e (gcn e)]"
  by (simp add: last_action_list_def appendExpression_def initChain_def Let_def map_last_def
      add_action_def new_ExpressionActions_def)

lemma last_action_list_fold_appendExpression:
  "last_action_list (fold (\<lambda>kv c. appendExpression gcn an c (snd kv) dry_run) kvs chain) =
     last_action_list chain @ map (\<lambda>kv. ComputeColumn (snd kv) (gcn (snd kv))) kvs"
  by (induction kvs arbitrary: chain) (simp_all add: last_action_list_appendExpression)

lemma last_action_list_add_to_last_actions:
  "steps chain \<noteq> [] \<Longrightarrow>
   last_action_list (add_to_last_actions a chain) = last_action_list chain @ [a]"
  by (simp add: last_action_list_def add_to_last_actions_def map_last_def add_action_def)

lemma steps_add_to_last_actions_Nil [simp]:
  "steps (add_to_last_actions a chain) = [] \<longleftrightarrow> steps chain = []"
  by (simp add: add_to_last_actions_def map_last_def)

lemma last_action_list_fold_add_to_last_actions:
  "steps chain \<noteq> [] \<Longrightarrow>
   last_action_list (fold (\<lambda>kv c. add_to_last_actions (f kv) c) kvs chain) =
     last_action_list chain @ map f kvs"
proof (induction kvs arbitrary: chain)
  case Nil
  then show ?case by simp
next
  case (Cons kv kvs)
  have "steps (add_to_last_actions (f kv) chain) \<noteq> []" using Cons.prems by simp
  from Cons.IH [OF this] show ?case
    using Cons.prems by (simp add: last_action_list_add_to_last_actions)
qed

lemma addStep_unless_empty_last_action_list:
  "addStep_unless_empty chain = Inr chain1 \<Longrightarrow> last_action_list chain1 = []"
  by (auto simp add: addStep_unless_empty_def addStep_def last_action_list_def
      new_ExpressionActions_def split: if_splits)

lemma append_update_last_action_list:
  assumes "append_update gcn an dry_run kvs chain = Inr chain'"
  shows "last_action_list chain' =
     map (\<lambda>kv. ComputeColumn (snd kv) (gcn (snd kv))) kvs
     @ map (\<lambda>kv. copyColumn (gcn (snd kv)) (fst kv) True) kvs"
proof -
  from assms obtain chain1 where
    a: "addStep_unless_empty chain = Inr chain1"
    and c: "chain' = fold (\<lambda>kv c. add_to_last_actions (copyColumn (gcn (snd kv)) (fst kv) True) c) kvs
          (fold (\<lambda>kv c. appendExpression gcn an c (snd kv) dry_run) kvs chain1)"
    by (auto simp add: append_update_def Let_def split: sum.splits)
  let ?c2 = "fold (\<lambda>kv c. appendExpression gcn an c (snd kv) dry_run) kvs chain1"
  have l2: "last_action_list ?c2 = map (\<lambda>kv. ComputeColumn (snd kv) (gcn (snd kv))) kvs"
    using addStep_unless_empty_last_action_list [OF a]
    by (simp add: last_action_list_fold_appendExpression)
  show ?thesis
  proof (cases "kvs = []")
    case True
    then show ?thesis using c l2 by simp
  next
    case False
    then have "length (steps ?c2) = max 1 (length (steps chain1))"
      by (simp add: length_steps_fold_appendExpression)
    then have "steps ?c2 \<noteq> []" by auto
    from last_action_list_fold_add_to_last_actions [OF this] show ?thesis
      using c l2 by simp
  qed
qed


lemma nth_finalize_steps_action_list:
  assumes k: "k < length xs"
  shows "action_list (actions (finalize_steps xs ! k)) = action_list (actions (xs ! k))"
proof -
  let ?f = "\<lambda>s. action_list (actions s)"
  have a: "map ?f (finalize_steps xs) ! k = ?f (finalize_steps xs ! k)"
    by (rule nth_map) (simp add: k)
  have b: "map ?f xs ! k = ?f (xs ! k)"
    by (rule nth_map) (rule k)
  have c: "map ?f (finalize_steps xs) = map ?f xs"
    by (rule action_list_finalize_steps)
  from a b c show ?thesis by (simp only:)
qed

lemma prepare_stage_update:
  assumes "prepare_stage gcn st all_columns dry_run s = Inr s'"
    and "steps (expressions_chain s) = []" and "delete_filter_column_names s = []"
    and "update s = Some upd"
  shows "\<exists>updated negs.
     updated_columns st upd (column_to_update_expression upd) = Inr updated
     \<and> negate_predicates (deletes s) = Inr negs
     \<and> analyzer s' = Some (new_ExpressionAnalyzer
          (negs @ map snd updated @ map ASTIdentifier (output_columns s)) all_columns)
     \<and> action_list (actions (steps (expressions_chain s') ! length (deletes s))) =
          map (\<lambda>kv. ComputeColumn (snd kv) (gcn (snd kv))) (fold emplace updated [])
          @ map (\<lambda>kv. copyColumn (gcn (snd kv)) (fst kv) True) (fold emplace updated [])"
proof -
  from assms(1,4) obtain negs updated chain1 names chain2 chain3 where
    n: "negate_predicates (deletes s) = Inr negs"
    and up: "updated_columns st upd (column_to_update_expression upd) = Inr updated"
    and d: "append_delete_filters gcn
          (new_ExpressionAnalyzer
             (negs @ map snd updated @ map ASTIdentifier (output_columns s)) all_columns)
          dry_run negs (expressions_chain s, delete_filter_column_names s) = Inr (chain1, names)"
    and u: "append_update gcn
               (new_ExpressionAnalyzer
                 (negs @ map snd updated @ map ASTIdentifier (output_columns s)) all_columns)
               dry_run (fold emplace updated []) chain1 = Inr chain2"
    and a: "addStep chain2 = Inr chain3"
    and s': "s' = s\<lparr>analyzer := Some (new_ExpressionAnalyzer
                 (negs @ map snd updated @ map ASTIdentifier (output_columns s)) all_columns),
                 expressions_chain := finalize
                   (chain3\<lparr>steps := map_last
                      (\<lambda>x. x\<lparr>required_output := output_columns s\<rparr>) (steps chain3)\<rparr>),
                 delete_filter_column_names := names\<rparr>"
    by (auto simp add: prepare_stage_def Let_def split: sum.splits prod.splits)
  have ln: "length negs = length (deletes s)" using n by (rule negate_predicates_length)
  have l1: "length (steps chain1) = length (deletes s)"
    using append_delete_filters_result [OF d] assms(2) ln by simp
  have ne2: "steps chain2 \<noteq> []" using a by (auto simp add: addStep_def split: if_splits)
  have l2: "length (steps chain2) = Suc (length (deletes s))"
    using append_update_length [OF u] l1 ne2 by (auto split: if_splits)
  have la: "action_list (actions (last (steps chain2))) =
          map (\<lambda>kv. ComputeColumn (snd kv) (gcn (snd kv))) (fold emplace updated [])
          @ map (\<lambda>kv. copyColumn (gcn (snd kv)) (fst kv) True) (fold emplace updated [])"
    using append_update_last_action_list [OF u] ne2 by (simp add: last_action_list_def)
  have c3: "steps chain3 = steps chain2 @
      [\<lparr>actions = new_ExpressionActions (getSampleBlock (actions (last (steps chain2)))),
        required_output = []\<rparr>]"
    using a by (auto simp add: addStep_def split: if_splits)
  let ?final = "map_last (\<lambda>x. x\<lparr>required_output := output_columns s\<rparr>) (steps chain3)"
  have fin: "?final = steps chain2 @
      [\<lparr>actions = new_ExpressionActions (getSampleBlock (actions (last (steps chain2)))),
        required_output = output_columns s\<rparr>]"
    unfolding c3 by simp
  have chain: "steps (expressions_chain s') = finalize_steps ?final"
    using s' by (simp add: finalize_def)
  have k: "length (deletes s) < length ?final" unfolding fin using l2 by simp
  have "?final ! length (deletes s) = last (steps chain2)"
    unfolding fin using l2 ne2 by (simp add: nth_append last_conv_nth)
  then have "action_list (actions (steps (expressions_chain s') ! length (deletes s))) =
      action_list (actions (last (steps chain2)))"
    unfolding chain using nth_finalize_steps_action_list [OF k] by simp
  then show ?thesis using up n s' la by simp
qed

lemma prepared_first_stage:
  assumes "prepare gcn dry_run mi = Inr mi'" and "stages mi = []"
  shows "update (stages mi' ! 0) = None"
  using assms(1)
proof (rule prepare_passes)
  fix sts1 :: "Stage list"
  assume s: "stage_commands (emplace_back (stages mi)) (commands mi) = Inr sts1"
    and ne: "sts1 \<noteq> []"
    and u: "\<And>j. update (stages mi' ! j)
        = update (forward_pass (getAllPhysical (getColumns (storage mi))) sts1 ! j)"
  have "stage_commands [new_Stage] (commands mi) = Inr sts1"
    using s assms(2) by (simp add: emplace_back_def)
  from stage_commands_staged [OF staged_initial this] have "staged sts1" by simp
  then have "update (hd sts1) = None" by (simp add: staged_def)
  then have "update (sts1 ! 0) = None" using ne by (simp add: hd_conv_nth)
  then show ?thesis using u [of 0] ne by (simp add: forward_pass_nth)
qed

text \<open>
  C1. When \<^verbatim>\<open>prepare\<close> of a fresh interpreter has completed and a stage holds an
  Update (stage 0 never does), then for every pair (column, replacement) of the update, in order, the
  expression built for it is exactly
  \<open>CAST(if(predicate of the update, replacement, identifier of the column), literal of
  the name of the declared type of the column)\<close>. These expressions are in the list the
  analyzer of the stage is built from, between the delete filters and the identifiers of
  the output columns, and the step of the stage after its delete filters computes each
  of them and then copies it over its column. Evaluated on a row, the expression is the
  \<open>CAST\<close> to the declared type of the replacement where the predicate is true and of the
  value the column has where it is not.
\<close>

theorem C1_update_expression:
  "(prepare gcn dry_run mi = Inr mi' \<and> stages mi = [] \<and> i < length (stages mi')
      \<and> update (stages mi' ! i) = Some upd \<longrightarrow>
     (\<exists>updated filters an.
        list_all2 (\<lambda>kv u. \<exists>p col. predicate upd = Some p
              \<and> getColumn (storage mi) (fst kv) = Inr col
              \<and> u = (fst kv, cast_if p (snd kv) (fst kv) (type_name col)))
          (column_to_update_expression upd) updated
        \<and> analyzer (stages mi' ! i) = Some an
        \<and> query an = filters @ map snd updated
                       @ map ASTIdentifier (output_columns (stages mi' ! i))
        \<and> action_list (actions (steps (expressions_chain (stages mi' ! i))
                                    ! length (deletes (stages mi' ! i)))) =
            map (\<lambda>kv. ComputeColumn (snd kv) (gcn (snd kv))) (fold emplace updated [])
            @ map (\<lambda>kv. copyColumn (gcn (snd kv)) (fst kv) True) (fold emplace updated [])
        \<and> (distinct (map fst (column_to_update_expression upd)) \<longrightarrow>
              fold emplace updated [] = updated)))
   \<and> eval_ast fn row (cast_if p e column_name ty) =
        fn ''CAST'' [if is_true (eval_ast fn row p) then eval_ast fn row e else row column_name,
                     String ty]"
proof -
  have A: "prepare gcn dry_run mi = Inr mi' \<and> stages mi = [] \<and> i < length (stages mi')
      \<and> update (stages mi' ! i) = Some upd \<longrightarrow>
     (\<exists>updated filters an.
        list_all2 (\<lambda>kv u. \<exists>p col. predicate upd = Some p
              \<and> getColumn (storage mi) (fst kv) = Inr col
              \<and> u = (fst kv, cast_if p (snd kv) (fst kv) (type_name col)))
          (column_to_update_expression upd) updated
        \<and> analyzer (stages mi' ! i) = Some an
        \<and> query an = filters @ map snd updated
                       @ map ASTIdentifier (output_columns (stages mi' ! i))
        \<and> action_list (actions (steps (expressions_chain (stages mi' ! i))
                                    ! length (deletes (stages mi' ! i)))) =
            map (\<lambda>kv. ComputeColumn (snd kv) (gcn (snd kv))) (fold emplace updated [])
            @ map (\<lambda>kv. copyColumn (gcn (snd kv)) (fst kv) True) (fold emplace updated [])
        \<and> (distinct (map fst (column_to_update_expression upd)) \<longrightarrow>
              fold emplace updated [] = updated))"
  proof
    let ?s = "stages mi' ! i"
    assume h: "prepare gcn dry_run mi = Inr mi' \<and> stages mi = [] \<and> i < length (stages mi')
      \<and> update (stages mi' ! i) = Some upd"
    then have p: "prepare gcn dry_run mi = Inr mi'" and f: "stages mi = []"
      and i2: "i < length (stages mi')" and u: "update ?s = Some upd" by simp_all
    have u0: "update (stages mi' ! 0) = None" using p f by (rule prepared_first_stage)
    have "i \<noteq> 0"
    proof
      assume "i = 0"
      then show False using u0 u by simp
    qed
    then have i: "0 < i" "i < length (stages mi')" using i2 by simp_all
    from prepared_stage_origin [OF p f i] obtain s0 where
      ps: "prepare_stage gcn (storage mi) (getAllPhysical (getColumns (storage mi))) dry_run s0
           = Inr ?s"
      and e: "steps (expressions_chain s0) = []" "delete_filter_column_names s0 = []"
      and o: "output_columns s0 = output_columns ?s"
      and du: "deletes s0 = deletes ?s" "update s0 = update ?s"
      by blast
    have u0: "update s0 = Some upd" using du u by simp
    from prepare_stage_update [OF ps e u0] obtain updated negs where
      up: "updated_columns (storage mi) upd (column_to_update_expression upd) = Inr updated"
      and an: "analyzer ?s = Some (new_ExpressionAnalyzer
          (negs @ map snd updated @ map ASTIdentifier (output_columns s0))
          (getAllPhysical (getColumns (storage mi))))"
      and al: "action_list (actions (steps (expressions_chain ?s) ! length (deletes s0))) =
          map (\<lambda>kv. ComputeColumn (snd kv) (gcn (snd kv))) (fold emplace updated [])
          @ map (\<lambda>kv. copyColumn (gcn (snd kv)) (fst kv) True) (fold emplace updated [])"
      by blast
    note la = updated_columns_result [OF up]
    have keys: "map fst updated = map fst (column_to_update_expression upd)"
      using la by (induction rule: list_all2_induct) auto
    have dist: "distinct (map fst (column_to_update_expression upd)) \<longrightarrow>
        fold emplace updated [] = updated"
      using fold_emplace_distinct [of "[]" updated] keys by simp
    let ?an = "new_ExpressionAnalyzer
          (negs @ map snd updated @ map ASTIdentifier (output_columns s0))
          (getAllPhysical (getColumns (storage mi)))"
    have q: "query ?an = negs @ map snd updated @ map ASTIdentifier (output_columns ?s)"
      using o by (simp add: new_ExpressionAnalyzer_def)
    have al': "action_list (actions (steps (expressions_chain ?s) ! length (deletes ?s))) =
          map (\<lambda>kv. ComputeColumn (snd kv) (gcn (snd kv))) (fold emplace updated [])
          @ map (\<lambda>kv. copyColumn (gcn (snd kv)) (fst kv) True) (fold emplace updated [])"
      using al du by simp
    show "\<exists>updated filters an.
        list_all2 (\<lambda>kv u. \<exists>p col. predicate upd = Some p
              \<and> getColumn (storage mi) (fst kv) = Inr col
              \<and> u = (fst kv, cast_if p (snd kv) (fst kv) (type_name col)))
          (column_to_update_expression upd) updated
        \<and> analyzer ?s = Some an
        \<and> query an = filters @ map snd updated @ map ASTIdentifier (output_columns ?s)
        \<and> action_list (actions (steps (expressions_chain ?s) ! length (deletes ?s))) =
            map (\<lambda>kv. ComputeColumn (snd kv) (gcn (snd kv))) (fold emplace updated [])
            @ map (\<lambda>kv. copyColumn (gcn (snd kv)) (fst kv) True) (fold emplace updated [])
        \<and> (distinct (map fst (column_to_update_expression upd)) \<longrightarrow>
              fold emplace updated [] = updated)"
      apply (rule exI [of _ updated])
      apply (rule exI [of _ negs])
      apply (rule exI [of _ ?an])
      using la an q al' dist apply (intro conjI)
          apply assumption+
      done
  qed
  have B: "eval_ast fn row (cast_if p e column_name ty) =
        fn ''CAST'' [if is_true (eval_ast fn row p) then eval_ast fn row e else row column_name,
                     String ty]"
    by (simp add: cast_if_def)
  show ?thesis using A B by (rule conjI)
qed


theorem C1_update_expression_witness:
  "action_list (actions (steps (expressions_chain (stages ex_prepared ! 1))
                           ! length (deletes (stages ex_prepared ! 1)))) =
     [ComputeColumn
        (cast_if (ASTIdentifier ''c'') (ASTIdentifier ''b'') ''a'' ''UInt8'')
        (expression_text (cast_if (ASTIdentifier ''c'') (ASTIdentifier ''b'') ''a'' ''UInt8'')),
      copyColumn
        (expression_text (cast_if (ASTIdentifier ''c'') (ASTIdentifier ''b'') ''a'' ''UInt8''))
        ''a'' True]
   \<and> map query (case analyzer (stages ex_prepared ! 1) of None \<Rightarrow> [] | Some an \<Rightarrow> [an]) =
       [ [cast_if (ASTIdentifier ''c'') (ASTIdentifier ''b'') ''a'' ''UInt8'', ASTIdentifier ''a'']]
   \<and> eval_ast ex_functions ex_row
        (cast_if (ASTIdentifier ''c'') (ASTIdentifier ''b'') ''a'' ''UInt8'') = UInt64 7"
proof -
  let ?cast = "cast_if (ASTIdentifier ''c'') (ASTIdentifier ''b'') ''a'' ''UInt8''"
  have l: "length (stages ex_prepared) = 2" by code_simp
  have u: "update (stages ex_prepared ! 1) = Some ex_update" by code_simp
  have d: "deletes (stages ex_prepared ! 1) = []" by code_simp
  have o: "output_columns (stages ex_prepared ! 1) = [''a'']" by code_simp
  have h: "prepare expression_text False ex_interpreter = Inr ex_prepared
      \<and> stages ex_interpreter = [] \<and> 1 < length (stages ex_prepared)
      \<and> update (stages ex_prepared ! 1) = Some ex_update"
    using ex_prepare l u by (simp add: ex_interpreter_def new_MutationsInterpreter_def)
  note T = C1_update_expression [of expression_text False ex_interpreter ex_prepared 1 ex_update
      ex_functions ex_row "ASTIdentifier ''c''" "ASTIdentifier ''b''" "''a''" "''UInt8''"]
  from T [THEN conjunct1, THEN mp, OF h] obtain updated filters an where
    la: "list_all2 (\<lambda>kv u. \<exists>p col. predicate ex_update = Some p
              \<and> getColumn (storage ex_interpreter) (fst kv) = Inr col
              \<and> u = (fst kv, cast_if p (snd kv) (fst kv) (type_name col)))
          (column_to_update_expression ex_update) updated"
    and an: "analyzer (stages ex_prepared ! 1) = Some an"
    and q: "query an = filters @ map snd updated
                       @ map ASTIdentifier (output_columns (stages ex_prepared ! 1))"
    and al: "action_list (actions (steps (expressions_chain (stages ex_prepared ! 1))
                                    ! length (deletes (stages ex_prepared ! 1)))) =
            map (\<lambda>kv. ComputeColumn (snd kv) (expression_text (snd kv))) (fold emplace updated [])
            @ map (\<lambda>kv. copyColumn (expression_text (snd kv)) (fst kv) True) (fold emplace updated [])"
    and di: "distinct (map fst (column_to_update_expression ex_update)) \<longrightarrow>
              fold emplace updated [] = updated"
    by blast
  have gc: "getColumn (storage ex_interpreter) ''a'' = Inr \<lparr>name = ''a'', type_name = ''UInt8''\<rparr>"
    by (simp add: ex_interpreter_def new_MutationsInterpreter_def ex_storage_def getColumn_def
        getAllPhysical_def)
  have up: "updated = [(''a'', ?cast)]"
    using la gc by (auto simp add: ex_update_def list_all2_Cons1)
  have fe: "fold emplace updated [] = updated"
    using di by (simp add: ex_update_def)
  have a: "action_list (actions (steps (expressions_chain (stages ex_prepared ! 1))
                           ! length (deletes (stages ex_prepared ! 1)))) =
     [ComputeColumn ?cast (expression_text ?cast), copyColumn (expression_text ?cast) ''a'' True]"
    using al fe up by simp
  have "query an = [?cast, ASTIdentifier ''a'']"
  proof -
    have "query an = filters @ [?cast, ASTIdentifier ''a'']" using q up o by simp
    moreover have "map (\<lambda>an. length (query an))
        (case analyzer (stages ex_prepared ! 1) of None \<Rightarrow> [] | Some an \<Rightarrow> [an]) = [2]"
      by code_simp
    then have "length (query an) = 2" using an by simp
    ultimately show ?thesis by simp
  qed
  then have b: "map query (case analyzer (stages ex_prepared ! 1) of None \<Rightarrow> [] | Some an \<Rightarrow> [an]) =
       [ [?cast, ASTIdentifier ''a'']]"
    using an by simp
  have c: "eval_ast ex_functions ex_row ?cast = UInt64 7"
    using T [THEN conjunct2]
    by (simp add: ex_functions_def ex_row_def is_true_def)
  show ?thesis using a b c by (intro conjI)
qed

end
